theory Spec2Isabelle
  imports Complex_Main "HOL-Library.Sublist" "HOL-Library.Log_Nat"
begin

section \<open>Text primitives of the detection engine\<close>

text \<open>
  A blob is a Python \<open>str\<close>. It is modelled as a \<open>string\<close> whose characters stand for the
  code points 0..255. The character classes below are the ones CPython's \<open>re\<close> module and
  \<open>str.strip\<close> use on that range.
\<close>

definition code_of :: "char \<Rightarrow> nat" where
  "code_of c = of_char c"

definition is_space :: "char \<Rightarrow> bool" where
  \<comment> \<open>\<open>\s\<close> of a str pattern, and the characters \<open>str.strip()\<close> removes\<close>
  "is_space c = (let n = code_of c in
     (9 \<le> n \<and> n \<le> 13) \<or> (28 \<le> n \<and> n \<le> 32) \<or> n = 133 \<or> n = 160)"

definition is_word :: "char \<Rightarrow> bool" where
  \<comment> \<open>\<open>\w\<close> of a str pattern: alphanumeric code points and the underscore\<close>
  "is_word c = (let n = code_of c in
     (48 \<le> n \<and> n \<le> 57) \<or> (65 \<le> n \<and> n \<le> 90) \<or> n = 95 \<or> (97 \<le> n \<and> n \<le> 122) \<or>
     n = 170 \<or> n = 178 \<or> n = 179 \<or> n = 181 \<or> n = 185 \<or> n = 186 \<or>
     (188 \<le> n \<and> n \<le> 190) \<or> (192 \<le> n \<and> n \<le> 214) \<or> (216 \<le> n \<and> n \<le> 246) \<or>
     (248 \<le> n \<and> n \<le> 255))"

definition lower :: "char \<Rightarrow> char" where
  \<comment> \<open>case folding as \<open>re.IGNORECASE\<close> applies it to the ASCII letters of the rule table\<close>
  "lower c = (let n = code_of c in if 65 \<le> n \<and> n \<le> 90 then char_of (n + 32) else c)"

definition newline :: char where
  "newline = CHR 0x0A"

fun split_lines :: "string \<Rightarrow> string list" where
  \<comment> \<open>\<open>code.split('\n')\<close>\<close>
  "split_lines [] = [[]]"
| "split_lines (c # cs) =
     (if c = newline then [] # split_lines cs
      else (case split_lines cs of [] \<Rightarrow> [[c]] | l # ls \<Rightarrow> (c # l) # ls))"

definition strip :: "string \<Rightarrow> string" where
  \<comment> \<open>\<open>line.strip()\<close>\<close>
  "strip s = rev (dropWhile is_space (rev (dropWhile is_space s)))"

fun count_sub :: "string \<Rightarrow> string \<Rightarrow> int" where
  \<comment> \<open>\<open>s.count(sub)\<close>: occurrences of \<open>sub\<close> in \<open>s\<close>, left to right, not overlapping\<close>
  "count_sub sub [] = (if sub = [] then 1 else 0)"
| "count_sub sub (c # cs) =
     (if sub = [] then 1 + count_sub sub cs
      else if prefix sub (c # cs) then 1 + count_sub sub (drop (length sub - 1) cs)
      else count_sub sub cs)"

section \<open>Patterns\<close>

text \<open>
  The rule table holds regular expressions that \<open>re.search\<close> applies to one line. The
  expressions of the table are sequences of single-character atoms, each with at most one
  quantifier, joined by alternation; the model keeps them in that parsed form and matches
  them by backtracking, as \<open>re\<close> does.
\<close>

datatype atom =
    Lit char            \<comment> \<open>a literal character\<close>
  | Space               \<comment> \<open>\<open>\s\<close>\<close>
  | Word                \<comment> \<open>\<open>\w\<close>\<close>
  | OneOf "char list"   \<comment> \<open>a character set \<open>[...]\<close>\<close>

datatype quant = Once | Opt | Star | Plus

type_synonym regex = "(atom \<times> quant) list list"

fun accepts :: "bool \<Rightarrow> atom \<Rightarrow> char \<Rightarrow> bool" where
  "accepts ic (Lit a) c = (if ic then lower a = lower c else a = c)"
| "accepts ic Space c = is_space c"
| "accepts ic Word c = is_word c"
| "accepts ic (OneOf as) c = (if ic then lower c \<in> set (map lower as) else c \<in> set as)"

fun match_here :: "bool \<Rightarrow> (atom \<times> quant) list \<Rightarrow> string \<Rightarrow> bool" where
  "match_here ic [] s = True"
| "match_here ic ((a, Once) # r) [] = False"
| "match_here ic ((a, Once) # r) (c # cs) = (accepts ic a c \<and> match_here ic r cs)"
| "match_here ic ((a, Opt) # r) [] = match_here ic r []"
| "match_here ic ((a, Opt) # r) (c # cs) =
     ((accepts ic a c \<and> match_here ic r cs) \<or> match_here ic r (c # cs))"
| "match_here ic ((a, Star) # r) [] = match_here ic r []"
| "match_here ic ((a, Star) # r) (c # cs) =
     ((accepts ic a c \<and> match_here ic ((a, Star) # r) cs) \<or> match_here ic r (c # cs))"
| "match_here ic ((a, Plus) # r) [] = False"
| "match_here ic ((a, Plus) # r) (c # cs) = (accepts ic a c \<and> match_here ic ((a, Star) # r) cs)"

definition match_alts :: "bool \<Rightarrow> regex \<Rightarrow> string \<Rightarrow> bool" where
  "match_alts ic p s = list_ex (\<lambda>alt. match_here ic alt s) p"

fun search :: "bool \<Rightarrow> regex \<Rightarrow> string \<Rightarrow> bool" where
  \<comment> \<open>\<open>re.search(p, s, flags)\<close> is not \<open>None\<close>: some position of \<open>s\<close> starts a match\<close>
  "search ic p [] = match_alts ic p []"
| "search ic p (c # cs) = (match_alts ic p (c # cs) \<or> search ic p cs)"

definition lits :: "string \<Rightarrow> (atom \<times> quant) list" where
  "lits s = map (\<lambda>c. (Lit c, Once)) s"

section \<open>The rule table\<close>

record rule =
  pattern :: regex
  rule_severity :: string
  rule_message :: string

definition dquote :: char where
  "dquote = CHR 0x22"

definition squote :: char where
  "squote = CHR 0x27"

definition bug_patterns :: "rule list" where
  \<comment> \<open>\<open>_load_bug_patterns\<close>; each pattern is given with its source text\<close>
  \<open>bug_patterns =
    [ \<comment> \<open>\<^verbatim>\<open>==\s*None\<close>\<close>
      \<lparr>pattern = [lits ''=='' @ [(Space, Star)] @ lits ''None''],
       rule_severity = ''medium'',
       rule_message = ''Use '' @ [dquote] @ ''is None'' @ [dquote] @ '' instead of '' @
                      [dquote] @ ''== None'' @ [dquote]\<rparr>,
      \<comment> \<open>\<^verbatim>\<open>except\s*:\<close>\<close>
      \<lparr>pattern = [lits ''except'' @ [(Space, Star), (Lit (CHR '':''), Once)]],
       rule_severity = ''high'',
       rule_message = ''Bare except clause - specify exception type''\<rparr>,
      \<comment> \<open>\<^verbatim>\<open>eval\s*\(\<close>\<close>
      \<lparr>pattern = [lits ''eval'' @ [(Space, Star), (Lit (CHR ''(''), Once)]],
       rule_severity = ''critical'',
       rule_message = ''Use of eval() is dangerous - security risk''\<rparr>,
      \<comment> \<open>\<^verbatim>\<open>exec\s*\(\<close>\<close>
      \<lparr>pattern = [lits ''exec'' @ [(Space, Star), (Lit (CHR ''(''), Once)]],
       rule_severity = ''critical'',
       rule_message = ''Use of exec() is dangerous - security risk''\<rparr>,
      \<comment> \<open>\<^verbatim>\<open>var\s+\w+\s*=\<close>\<close>
      \<lparr>pattern = [lits ''var'' @ [(Space, Plus), (Word, Plus), (Space, Star),
                                     (Lit (CHR ''=''), Once)]],
       rule_severity = ''low'',
       rule_message = ''Use let or const instead of var in JavaScript''\<rparr>,
      \<comment> \<open>\<^verbatim>\<open>console\.log\(\<close>\<close>
      \<lparr>pattern = [lits ''console.log(''],
       rule_severity = ''low'',
       rule_message = ''Remove console.log before production''\<rparr>,
      \<comment> \<open>\<^verbatim>\<open>TODO|FIXME|HACK\<close>\<close>
      \<lparr>pattern = [lits ''TODO'', lits ''FIXME'', lits ''HACK''],
       rule_severity = ''medium'',
       rule_message = ''Unresolved TODO/FIXME comment''\<rparr>,
      \<comment> \<open>\<^verbatim>\<open>password\s*=\s*["\']\<close>\<close>
      \<lparr>pattern = [lits ''password'' @ [(Space, Star), (Lit (CHR ''=''), Once), (Space, Star),
                                          (OneOf [dquote, squote], Once)]],
       rule_severity = ''critical'',
       rule_message = ''Hardcoded password detected - security risk''\<rparr>,
      \<comment> \<open>\<^verbatim>\<open>api[_-]?key\s*=\s*["\']\<close>\<close>
      \<lparr>pattern = [lits ''api'' @ [(OneOf ''_-'', Opt)] @ lits ''key'' @
                   [(Space, Star), (Lit (CHR ''=''), Once), (Space, Star),
                    (OneOf [dquote, squote], Once)]],
       rule_severity = ''critical'',
       rule_message = ''Hardcoded API key detected - security risk''\<rparr>,
      \<comment> \<open>\<^verbatim>\<open>\.innerHTML\s*=\<close>\<close>
      \<lparr>pattern = [lits ''.innerHTML'' @ [(Space, Star), (Lit (CHR ''=''), Once)]],
       rule_severity = ''high'',
       rule_message = ''Potential XSS vulnerability with innerHTML''\<rparr> ]\<close>

section \<open>The line matcher\<close>

record finding =
  line :: int
  severity :: string
  message :: string
  code :: string
  kind :: string   \<comment> \<open>the key \<open>'type'\<close>\<close>

definition make_finding :: "int \<Rightarrow> string \<Rightarrow> rule \<Rightarrow> finding" where
  "make_finding i l pattern_info =
     \<lparr>line = i, severity = rule_severity pattern_info, message = rule_message pattern_info,
      code = strip l, kind = ''pattern''\<rparr>"

fun rules_loop :: "int \<Rightarrow> string \<Rightarrow> rule list \<Rightarrow> finding list \<Rightarrow> finding list" where
  \<comment> \<open>the inner loop \<open>for pattern_info in self.bug_patterns\<close> on line \<open>l\<close> with number \<open>i\<close>\<close>
  "rules_loop i l [] bugs = bugs"
| "rules_loop i l (pattern_info # rest) bugs =
     rules_loop i l rest
       (if search True (pattern pattern_info) l then bugs @ [make_finding i l pattern_info]
        else bugs)"

fun lines_loop :: "int \<Rightarrow> string list \<Rightarrow> finding list \<Rightarrow> finding list" where
  \<comment> \<open>the outer loop \<open>for i, line in enumerate(lines, 1)\<close>\<close>
  "lines_loop i [] bugs = bugs"
| "lines_loop i (l # rest) bugs = lines_loop (i + 1) rest (rules_loop i l bug_patterns bugs)"

definition detect_pattern_bugs :: "string \<Rightarrow> finding list" where
  "detect_pattern_bugs code_text = lines_loop 1 (split_lines code_text) []"

section \<open>The feature extractor\<close>

definition is_const_char :: "char \<Rightarrow> bool" where
  \<comment> \<open>the character set \<open>[A-Z_]\<close>\<close>
  "is_const_char c = (let n = code_of c in (65 \<le> n \<and> n \<le> 90) \<or> n = 95)"

function constants_from :: "bool \<Rightarrow> string \<Rightarrow> int" where
  \<comment> \<open>\<open>len(re.findall(r'\b[A-Z_]+\b', code))\<close>, scanning from a position whose preceding
      character is a word character iff \<open>pw\<close>: a match is a maximal run of \<open>[A-Z_]\<close> that
      starts and ends at a word boundary, and the scan resumes where the match ended\<close>
  "constants_from pw [] = 0"
| "constants_from pw (c # cs) =
     (if \<not> pw \<and> is_const_char c then
        (case dropWhile is_const_char cs of
           [] \<Rightarrow> 1
         | d # ds \<Rightarrow> if is_word d then constants_from True cs
                    else 1 + constants_from True (d # ds))
      else constants_from (is_word c) cs)"
  by pat_completeness auto
termination
proof (relation "measure (\<lambda>(pw, s). length s)", goal_cases)
  case (3 pw c cs d ds)
  have "length (dropWhile is_const_char cs) \<le> length cs"
    by (rule length_dropWhile_le)
  with 3 show ?case by simp
qed auto

definition extract_features :: "string \<Rightarrow> int list" where
  \<comment> \<open>the row \<open>features[0]\<close> of the array that \<open>extract_features\<close> returns\<close>
  "extract_features code_text =
     [ int (length (split_lines code_text)),
       count_sub ''if'' code_text,
       count_sub ''for'' code_text + count_sub ''while'' code_text,
       count_sub ''try'' code_text,
       count_sub ''def'' code_text + count_sub ''function'' code_text,
       constants_from False code_text,
       count_sub ''import'' code_text + count_sub ''require'' code_text,
       (if length code_text > 1000 then 1 else 0),
       (if count_sub [newline] code_text > 300 then 1 else 0),
       count_sub ''# TODO'' code_text + count_sub ''// TODO'' code_text ]"

section \<open>Floating point\<close>

text \<open>
  A Python \<open>float\<close> is an IEEE 754 binary64 number. It is modelled by the rational it
  denotes; every operation is the exact operation followed by rounding to the nearest
  number with a 53-bit significand, ties to even. The exponent range is not bounded in
  the model: the scores of this program stay between \<open>0.001\<close> and the length of a blob,
  and the rounding errors that the compensated sum keeps are multiples of their last bits,
  all far from overflow and underflow.
\<close>

definition round_half_even :: "rat \<Rightarrow> int" where
  "round_half_even x = (let f = \<lfloor>x\<rfloor>; d = x - of_int f in
     if d < 1 / 2 then f else if 1 / 2 < d then f + 1 else if even f then f else f + 1)"

definition binade :: "rat \<Rightarrow> int" where
  \<comment> \<open>for \<open>0 < x\<close>, the exponent \<open>e\<close> with \<open>2 powi e \<le> x < 2 powi (e + 1)\<close>\<close>
  "binade x = (if 1 \<le> x then bitlen \<lfloor>x\<rfloor> - 1 else - bitlen (\<lceil>1 / x\<rceil> - 1))"

definition fl :: "rat \<Rightarrow> rat" where
  \<comment> \<open>rounding to binary64; also the value of a decimal literal such as \<open>0.1\<close>\<close>
  "fl x = (if x = 0 then 0
           else let u = 2 powi (binade \<bar>x\<bar> - 52) in of_int (round_half_even (x / u)) * u)"

definition float_of_int :: "int \<Rightarrow> rat" where
  "float_of_int n = fl (of_int n)"

definition fadd :: "rat \<Rightarrow> rat \<Rightarrow> rat" where
  "fadd x y = fl (x + y)"

definition fmul :: "rat \<Rightarrow> rat \<Rightarrow> rat" where
  "fmul x y = fl (x * y)"

definition fsub :: "rat \<Rightarrow> rat \<Rightarrow> rat" where
  "fsub x y = fl (x - y)"

definition py_min :: "rat \<Rightarrow> rat \<Rightarrow> rat" where
  \<comment> \<open>\<open>min(a, b)\<close>: the first argument unless the second is smaller\<close>
  "py_min a b = (if b < a then b else a)"

section \<open>Dictionaries and errors\<close>

datatype py_error = KeyError string | OSError | UnicodeDecodeError | ZeroDivisionError

type_synonym 'v dict = "(string \<times> 'v) list"

fun setitem :: "'v dict \<Rightarrow> string \<Rightarrow> 'v \<Rightarrow> 'v dict" where
  \<comment> \<open>\<open>d[k] = v\<close>: an existing key keeps its place, a new key goes last\<close>
  "setitem [] k v = [(k, v)]"
| "setitem ((k', v') # d) k v = (if k' = k then (k, v) # d else (k', v') # setitem d k v)"

definition iadd :: "int dict \<Rightarrow> string \<Rightarrow> int \<Rightarrow> py_error + int dict" where
  \<comment> \<open>\<open>d[k] += n\<close>\<close>
  "iadd d k n = (case map_of d k of None \<Rightarrow> Inl (KeyError k) | Some v \<Rightarrow> Inr (setitem d k (v + n)))"

section \<open>The severity aggregator and the per-blob result\<close>

fun severity_loop :: "finding list \<Rightarrow> int dict \<Rightarrow> py_error + int dict" where
  \<comment> \<open>\<open>for bug in bugs: severity_count[bug['severity']] += 1\<close>\<close>
  "severity_loop [] severity_count = Inr severity_count"
| "severity_loop (bug # bugs) severity_count =
     (case iadd severity_count (severity bug) 1 of
        Inl e \<Rightarrow> Inl e
      | Inr severity_count' \<Rightarrow> severity_loop bugs severity_count')"

definition calculate_severity :: "finding list \<Rightarrow> py_error + int dict" where
  \<comment> \<open>\<open>_calculate_severity\<close>\<close>
  "calculate_severity bugs =
     severity_loop bugs [(''critical'', 0), (''high'', 0), (''medium'', 0), (''low'', 0)]"

record result =
  has_bugs :: bool
  confidence :: rat
  bugs_found :: "finding list"
  total_issues :: int
  severity_breakdown :: "int dict"

definition predict :: "string \<Rightarrow> py_error + result" where
  "predict code_text =
     (let pattern_bugs = detect_pattern_bugs code_text;
          features = extract_features code_text;
          complexity_score = features ! 1 + features ! 2;
          line_count = features ! 0;
          bug_probability =
            py_min (fl (95 / 100))
              (fadd (fmul (float_of_int complexity_score) (fl (1 / 10)))
                    (fmul (float_of_int line_count) (fl (1 / 1000))));
          has_bugs' = (fl (3 / 10) < bug_probability \<or> int (length pattern_bugs) > 0)
      in case calculate_severity pattern_bugs of
           Inl e \<Rightarrow> Inl e
         | Inr breakdown \<Rightarrow>
             Inr \<lparr>has_bugs = has_bugs', confidence = bug_probability,
                  bugs_found = pattern_bugs, total_issues = int (length pattern_bugs),
                  severity_breakdown = breakdown\<rparr>)"

section \<open>The project aggregator\<close>

record file_entry =
  path :: string
  file_has_bugs :: bool
  file_total_issues :: int
  file_confidence :: rat

record all_results =
  total_files :: int
  files_with_bugs :: int
  all_total_issues :: int
  all_severity_breakdown :: "int dict"
  files :: "file_entry list"
  all_confidence :: rat

definition initial_results :: all_results where
  "initial_results =
     \<lparr>total_files = 0, files_with_bugs = 0, all_total_issues = 0,
      all_severity_breakdown = [(''critical'', 0), (''high'', 0), (''medium'', 0), (''low'', 0)],
      files = [], all_confidence = 0\<rparr>"

text \<open>
  The body of the \<open>try\<close> block mutates \<open>all_results\<close> step by step, so an exception leaves
  the updates made before it. A block therefore returns the exception it raised, if any,
  together with the state it reached.
\<close>

fun aggregate_severity :: "int dict \<Rightarrow> all_results \<Rightarrow> py_error option \<times> all_results" where
  \<comment> \<open>\<open>for severity, count in results['severity_breakdown'].items(): ...\<close>\<close>
  "aggregate_severity [] a = (None, a)"
| "aggregate_severity ((sev, count) # items) a =
     (case iadd (all_severity_breakdown a) sev count of
        Inl e \<Rightarrow> (Some e, a)
      | Inr d \<Rightarrow> aggregate_severity items (a\<lparr>all_severity_breakdown := d\<rparr>))"

definition try_body :: "string \<times> (py_error + string) \<Rightarrow> all_results \<Rightarrow> py_error option \<times> all_results" where
  \<comment> \<open>the \<open>try\<close> block for one file \<open>f\<close>: its path with what opening and reading it gives\<close>
  "try_body f a =
     (case snd f of
        Inl e \<Rightarrow> (Some e, a)
      | Inr code_text \<Rightarrow>
          (case predict code_text of
             Inl e \<Rightarrow> (Some e, a)
           | Inr results \<Rightarrow>
               (let a1 = a\<lparr>total_files := total_files a + 1\<rparr>;
                    a2 = (if has_bugs results
                          then a1\<lparr>files_with_bugs := files_with_bugs a1 + 1\<rparr> else a1);
                    a3 = a2\<lparr>all_total_issues := all_total_issues a2 + total_issues results\<rparr>
                in case aggregate_severity (severity_breakdown results) a3 of
                     (Some e, a4) \<Rightarrow> (Some e, a4)
                   | (None, a4) \<Rightarrow>
                       (None, a4\<lparr>files := files a4 @
                          [\<lparr>path = fst f, file_has_bugs = has_bugs results,
                            file_total_issues = total_issues results,
                            file_confidence = confidence results\<rparr>]\<rparr>))))"

fun files_loop :: "(string \<times> (py_error + string)) list \<Rightarrow> all_results \<Rightarrow> all_results" where
  \<comment> \<open>\<open>for file_path in code_files: try: ... except Exception: print(...)\<close>\<close>
  "files_loop [] a = a"
| "files_loop (f # rest) a = files_loop rest (snd (try_body f a))"

text \<open>
  The builtin \<open>sum\<close> depends on the interpreter. Up to CPython 3.11 it adds the floats from
  left to right. From CPython 3.12 on it adds the first item to the start value \<open>0\<close> and
  then runs Neumaier's compensated summation: beside the running sum \<open>f_result\<close> it keeps
  the rounding errors of the additions in \<open>c\<close>, and adds \<open>c\<close> at the end unless it is zero.
  The program runs on either, so the scan takes the summation as a parameter.
\<close>

datatype summation = Sequential | Compensated

fun neumaier_loop :: "rat \<Rightarrow> rat \<Rightarrow> rat list \<Rightarrow> rat" where
  \<comment> \<open>the float loop of \<open>sum\<close> in CPython 3.12, from the state \<open>f_result\<close>, \<open>c\<close>\<close>
  "neumaier_loop f_result c [] = (if c \<noteq> 0 then fadd f_result c else f_result)"
| "neumaier_loop f_result c (x # xs) =
     (let t = fadd f_result x;
          c' = (if \<bar>x\<bar> \<le> \<bar>f_result\<bar> then fadd c (fadd (fsub f_result t) x)
                else fadd c (fadd (fsub x t) f_result))
      in neumaier_loop t c' xs)"

fun py_sum :: "summation \<Rightarrow> rat list \<Rightarrow> rat" where
  \<comment> \<open>\<open>sum(...)\<close> of a sequence of floats, with the start value \<open>0\<close>\<close>
  "py_sum Sequential xs = foldl fadd 0 xs"
| "py_sum Compensated [] = 0"
| "py_sum Compensated (x # xs) = neumaier_loop (fadd 0 x) 0 xs"

definition truediv :: "rat \<Rightarrow> int \<Rightarrow> py_error + rat" where
  \<comment> \<open>\<open>x / n\<close> for a float \<open>x\<close> and an int \<open>n\<close>\<close>
  "truediv x n = (if n = 0 then Inl ZeroDivisionError else Inr (fl (x / float_of_int n)))"

definition scan_project ::
    "summation \<Rightarrow> (string \<times> (py_error + string)) list \<Rightarrow> py_error + all_results" where
  \<comment> \<open>\<open>scan_project\<close> from the list of code files to the summary it builds; each file comes
      with the outcome of opening and reading it, and \<open>alg\<close> is the summation of the
      interpreter\<close>
  "scan_project alg code_files =
     (let a = files_loop code_files initial_results
      in if total_files a > 0
         then (case truediv (py_sum alg (map file_confidence (files a))) (total_files a) of
                 Inl e \<Rightarrow> Inl e
               | Inr c \<Rightarrow> Inr (a\<lparr>all_confidence := c\<rparr>))
         else Inr a)"

section \<open>Reference definitions\<close>

text \<open>
  The definitions of this section are not part of the program. They state what the loops
  above are compared with: the ordering of findings that the specification describes, and
  closed forms of the score, of the severity tally and of the project summary.
\<close>

definition spec_line_findings :: "int \<Rightarrow> string \<Rightarrow> finding list" where
  \<comment> \<open>specification, Line Matcher: on one line, every rule that matches contributes one
      finding, in table order\<close>
  "spec_line_findings i l =
     map (make_finding i l) (filter (\<lambda>r. search True (pattern r) l) bug_patterns)"

definition spec_findings :: "string \<Rightarrow> finding list" where
  \<comment> \<open>specification, Line Matcher: lines in ascending order, numbered from 1, each followed
      by its findings\<close>
  "spec_findings code_text =
     (let ls = split_lines code_text
      in concat (map (\<lambda>n. spec_line_findings (int n + 1) (ls ! n)) [0..<length ls]))"

definition severities :: "string list" where
  "severities = [''critical'', ''high'', ''medium'', ''low'']"

definition count_severity :: "finding list \<Rightarrow> string \<Rightarrow> int" where
  "count_severity bugs s = int (length (filter (\<lambda>b. severity b = s) bugs))"

definition score :: "string \<Rightarrow> rat" where
  \<comment> \<open>the value of \<open>bug_probability\<close> in \<open>predict\<close>, in terms of the blob\<close>
  "score code_text =
     py_min (fl (95 / 100))
       (fadd (fmul (float_of_int (count_sub ''if'' code_text +
                                  (count_sub ''for'' code_text + count_sub ''while'' code_text)))
                   (fl (1 / 10)))
             (fmul (float_of_int (int (length (split_lines code_text)))) (fl (1 / 1000))))"

definition unit_roundoff :: rat where
  \<comment> \<open>the largest relative error of one rounding to binary64\<close>
  "unit_roundoff = 1 / 2 ^ 53"

definition bucket :: "int dict \<Rightarrow> string \<Rightarrow> int" where
  \<comment> \<open>the count that a severity breakdown holds under the key \<open>k\<close>\<close>
  "bucket d k = (case map_of d k of Some v \<Rightarrow> v | None \<Rightarrow> 0)"

definition entry_of :: "string \<times> result \<Rightarrow> file_entry" where
  "entry_of pr = \<lparr>path = fst pr, file_has_bugs = has_bugs (snd pr),
     file_total_issues = total_issues (snd pr), file_confidence = confidence (snd pr)\<rparr>"

definition spec_fold :: "(string \<times> result) list \<Rightarrow> all_results" where
  \<comment> \<open>specification, Project Aggregator: the sums over the per-file results, before the mean
      confidence is filled in\<close>
  "spec_fold prs =
     \<lparr>total_files = int (length prs),
      files_with_bugs = int (length (filter (\<lambda>pr. has_bugs (snd pr)) prs)),
      all_total_issues = sum_list (map (\<lambda>pr. total_issues (snd pr)) prs),
      all_severity_breakdown =
        map (\<lambda>k. (k, sum_list (map (\<lambda>pr. bucket (severity_breakdown (snd pr)) k) prs))) severities,
      files = map entry_of prs,
      all_confidence = 0\<rparr>"

definition analysed :: "(string \<times> (py_error + string)) list \<Rightarrow> (string \<times> result) list" where
  \<comment> \<open>the files that were read and analysed without an exception, with their results\<close>
  "analysed fs =
     concat (map (\<lambda>f. case snd f of Inl e \<Rightarrow> []
                        | Inr code_text \<Rightarrow> (case predict code_text of Inl e \<Rightarrow> [] | Inr r \<Rightarrow> [(fst f, r)])) fs)"

section \<open>The line matcher computes the specified sequence\<close>

lemma rules_loop_append:
  "rules_loop i l rs bugs =
     bugs @ map (make_finding i l) (filter (\<lambda>r. search True (pattern r) l) rs)"
  by (induction rs arbitrary: bugs) simp_all

lemma lines_loop_append:
  "lines_loop i ls bugs =
     bugs @ concat (map (\<lambda>n. spec_line_findings (i + int n) (ls ! n)) [0..<length ls])"
proof (induction ls arbitrary: i bugs)
  case Nil
  show ?case by simp
next
  case (Cons l ls)
  have shift: "map (\<lambda>n. spec_line_findings (i + int n) ((l # ls) ! n)) [0..<length (l # ls)] =
      spec_line_findings i l # map (\<lambda>n. spec_line_findings (i + 1 + int n) (ls ! n)) [0..<length ls]"
    by (simp add: upt_conv_Cons map_Suc_upt[symmetric] add.assoc del: upt_Suc)
  show ?case
    unfolding shift
    by (simp add: Cons.IH rules_loop_append spec_line_findings_def)
qed

lemma detect_eq_spec: "detect_pattern_bugs code_text = spec_findings code_text"
  by (simp add: detect_pattern_bugs_def spec_findings_def lines_loop_append Let_def add.commute)

lemma line_spec_line_findings: "b \<in> set (spec_line_findings i l) \<Longrightarrow> line b = i"
  by (auto simp: spec_line_findings_def make_finding_def)

lemma sorted_spec_line_findings: "sorted (map line (spec_line_findings i l))"
proof -
  have "map line (spec_line_findings i l) = replicate (length (spec_line_findings i l)) i"
    by (simp add: spec_line_findings_def make_finding_def map_replicate_const[symmetric] comp_def)
  then show ?thesis by (simp add: sorted_replicate)
qed

lemma lines_loop_sorted:
  "sorted (map line bugs) \<Longrightarrow> \<forall>b\<in>set bugs. line b \<le> i \<Longrightarrow>
   sorted (map line (lines_loop i ls bugs)) \<and> (\<forall>b\<in>set (lines_loop i ls bugs). line b \<le> i + int (length ls))"
proof (induction ls arbitrary: i bugs)
  case Nil
  then show ?case by simp
next
  case (Cons l ls)
  let ?bugs' = "rules_loop i l bug_patterns bugs"
  have eq: "?bugs' = bugs @ spec_line_findings i l"
    by (simp add: rules_loop_append spec_line_findings_def)
  have s: "sorted (map line ?bugs')"
    using Cons.prems by (auto simp: eq sorted_append sorted_spec_line_findings dest!: line_spec_line_findings)
  have b: "\<forall>b\<in>set ?bugs'. line b \<le> i + 1"
    using Cons.prems by (auto simp: eq dest!: line_spec_line_findings)
  from Cons.IH[OF s b] show ?case by (simp add: add.assoc)
qed

lemma detect_sorted: "sorted (map line (detect_pattern_bugs code_text))"
  using lines_loop_sorted[of "[]" 1 "split_lines code_text"] by (simp add: detect_pattern_bugs_def)

section \<open>The severity tally\<close>

lemma count_severity_Cons:
  "count_severity (b # bugs) s = (if severity b = s then 1 else 0) + count_severity bugs s"
  by (simp add: count_severity_def)

lemma severity_loop_valid:
  "\<forall>b\<in>set bugs. severity b \<in> set severities \<Longrightarrow>
   severity_loop bugs [(''critical'', w), (''high'', x), (''medium'', y), (''low'', z)] =
     Inr [(''critical'', w + count_severity bugs ''critical''),
          (''high'', x + count_severity bugs ''high''),
          (''medium'', y + count_severity bugs ''medium''),
          (''low'', z + count_severity bugs ''low'')]"
proof (induction bugs arbitrary: w x y z)
  case Nil
  show ?case by (simp add: count_severity_def)
next
  case (Cons b bugs)
  from Cons.prems have tl: "\<forall>b\<in>set bugs. severity b \<in> set severities" by simp
  from Cons.prems have "severity b \<in> set severities" by simp
  then consider "severity b = ''critical''" | "severity b = ''high''"
    | "severity b = ''medium''" | "severity b = ''low''"
    by (auto simp: severities_def)
  then show ?case
    by cases (simp_all add: iadd_def Cons.IH[OF tl] count_severity_Cons)
qed

lemma severity_loop_invalid:
  "\<exists>b\<in>set bugs. severity b \<notin> set severities \<Longrightarrow>
   \<exists>s. severity_loop bugs [(''critical'', w), (''high'', x), (''medium'', y), (''low'', z)] =
        Inl (KeyError s) \<and> s \<notin> set severities"
proof (induction bugs arbitrary: w x y z)
  case Nil
  then show ?case by simp
next
  case (Cons b bugs)
  show ?case
  proof (cases "severity b \<in> set severities")
    case False
    then have "map_of [(''critical'', w), (''high'', x), (''medium'', y), (''low'', z)] (severity b) = None"
      by (auto simp: severities_def)
    with False show ?thesis by (simp add: iadd_def)
  next
    case True
    with Cons.prems have tl: "\<exists>b\<in>set bugs. severity b \<notin> set severities" by auto
    from True consider "severity b = ''critical''" | "severity b = ''high''"
      | "severity b = ''medium''" | "severity b = ''low''"
      by (auto simp: severities_def)
    then show ?thesis
      by cases (simp_all add: iadd_def Cons.IH[OF tl])
  qed
qed

lemma count_severity_total:
  "\<forall>b\<in>set bugs. severity b \<in> set severities \<Longrightarrow>
   count_severity bugs ''critical'' + count_severity bugs ''high'' +
   count_severity bugs ''medium'' + count_severity bugs ''low'' = int (length bugs)"
proof (induction bugs)
  case Nil
  show ?case by (simp add: count_severity_def)
next
  case (Cons b bugs)
  from Cons.prems have "severity b \<in> set severities" by simp
  then consider "severity b = ''critical''" | "severity b = ''high''"
    | "severity b = ''medium''" | "severity b = ''low''"
    by (auto simp: severities_def)
  then show ?case
    using Cons by cases (simp_all add: count_severity_Cons)
qed

lemma rule_severity_valid: "r \<in> set bug_patterns \<Longrightarrow> rule_severity r \<in> set severities"
  by (auto simp: bug_patterns_def severities_def)

lemma detect_severity_valid:
  "\<forall>b\<in>set (detect_pattern_bugs code_text). severity b \<in> set severities"
  by (auto simp: detect_eq_spec spec_findings_def spec_line_findings_def make_finding_def Let_def
      intro: rule_severity_valid)

lemma calculate_severity_detect:
  "calculate_severity (detect_pattern_bugs code_text) =
     Inr (map (\<lambda>s. (s, count_severity (detect_pattern_bugs code_text) s)) severities)"
  using severity_loop_valid[OF detect_severity_valid, of code_text 0 0 0 0]
  by (simp add: calculate_severity_def severities_def)

lemma predict_eq:
  "predict code_text =
     Inr \<lparr>has_bugs = (fl (3 / 10) < score code_text \<or> detect_pattern_bugs code_text \<noteq> []),
          confidence = score code_text,
          bugs_found = detect_pattern_bugs code_text,
          total_issues = int (length (detect_pattern_bugs code_text)),
          severity_breakdown =
            map (\<lambda>s. (s, count_severity (detect_pattern_bugs code_text) s)) severities\<rparr>"
  by (simp add: predict_def calculate_severity_detect extract_features_def score_def Let_def)

section \<open>Rounding is monotone\<close>

lemma binade_bounds:
  assumes "0 < x"
  shows "2 powi (binade x) \<le> x" and "x < 2 powi (binade x + 1)"
proof -
  have both: "2 powi (binade x) \<le> x \<and> x < 2 powi (binade x + 1)"
  proof (cases "1 \<le> x")
    case True
    define n where "n = nat \<lfloor>x\<rfloor>"
    define k where "k = floorlog 2 n"
    have n1: "1 \<le> n" using True by (simp add: n_def le_nat_iff)
    then have npos: "0 < n" by simp
    have fb: "2 ^ (k - 1) \<le> n" "n < 2 ^ k"
      using floorlog_bounds[OF npos, of 2] by (simp_all add: k_def)
    have k1: "1 \<le> k" using npos by (simp add: k_def floorlog_def)
    have nx: "rat_of_nat n \<le> x" "x < rat_of_nat n + 1"
      using True by (simp_all add: n_def of_nat_nat) linarith
    have be: "binade x = int k - 1"
      using True by (simp add: binade_def bitlen_def n_def k_def)
    have e1: "(2::rat) powi (int k - 1) = 2 ^ (k - 1)"
      using k1 by (simp add: power_int_def nat_diff_distrib')
    have e2: "(2::rat) powi (int k - 1 + 1) = 2 ^ k"
      by simp
    have "(2::rat) ^ (k - 1) = rat_of_nat (2 ^ (k - 1))" by simp
    also have "\<dots> \<le> rat_of_nat n" using fb(1) by (rule of_nat_mono)
    also have "\<dots> \<le> x" by (rule nx(1))
    finally have lo: "(2::rat) ^ (k - 1) \<le> x" .
    have "n + 1 \<le> 2 ^ k" using fb(2) by simp
    then have "rat_of_nat (n + 1) \<le> rat_of_nat (2 ^ k)" by (rule of_nat_mono)
    then have "rat_of_nat n + 1 \<le> 2 ^ k" by simp
    with nx(2) have hi: "x < (2::rat) ^ k" by linarith
    show ?thesis using lo hi by (simp only: be e1 e2)
  next
    case False
    define y where "y = 1 / x"
    define c where "c = \<lceil>y\<rceil>"
    define n where "n = nat (c - 1)"
    define k where "k = floorlog 2 n"
    have y1: "1 < y" using False assms by (simp add: y_def)
    have c2: "2 \<le> c" using y1 by (simp add: c_def le_ceiling_iff)
    have npos: "0 < n" using c2 by (simp add: n_def)
    have nc: "int n = c - 1" using c2 by (simp add: n_def)
    have fb: "2 ^ (k - 1) \<le> n" "n < 2 ^ k"
      using floorlog_bounds[OF npos, of 2] by (simp_all add: k_def)
    have k1: "1 \<le> k" using npos by (simp add: k_def floorlog_def)
    have be: "binade x = - int k"
      using False by (simp add: binade_def bitlen_def n_def k_def c_def y_def)
    have cy: "of_int c - 1 < y" "y \<le> of_int c"
      by (simp_all add: c_def) linarith
    have cn: "rat_of_int c = rat_of_nat n + 1"
    proof -
      have "rat_of_int c = rat_of_int (int n + 1)" by (simp add: nc)
      then show ?thesis by simp
    qed
    have "(2::rat) ^ (k - 1) = rat_of_nat (2 ^ (k - 1))" by simp
    also have "\<dots> \<le> rat_of_nat n" using fb(1) by (rule of_nat_mono)
    also have "\<dots> < y" using cy(1) by (simp add: cn)
    finally have ylo: "(2::rat) ^ (k - 1) < y" .
    have "n + 1 \<le> 2 ^ k" using fb(2) by simp
    then have "rat_of_nat (n + 1) \<le> rat_of_nat (2 ^ k)" by (rule of_nat_mono)
    then have "rat_of_nat n + 1 \<le> 2 ^ k" by simp
    with cy(2) have yhi: "y \<le> (2::rat) ^ k" by (simp add: cn)
    have e1: "(2::rat) powi (- int k) = 1 / 2 ^ k"
      by (simp add: power_int_minus_divide)
    have e2: "(2::rat) powi (- int k + 1) = 1 / 2 ^ (k - 1)"
    proof -
      have "- int k + 1 = - int (k - 1)" using k1 by simp
      then show ?thesis by (simp only: power_int_minus_divide power_int_of_nat)
    qed
    have xy: "x = 1 / y" by (simp add: y_def)
    have lo: "1 / (2::rat) ^ k \<le> x"
      unfolding xy using yhi y1 by (simp add: field_simps)
    have hi: "x < 1 / (2::rat) ^ (k - 1)"
      unfolding xy using ylo y1 by (simp add: field_simps)
    show ?thesis using lo hi by (simp only: be e1 e2)
  qed
  from both show "2 powi (binade x) \<le> x" and "x < 2 powi (binade x + 1)" by simp_all
qed

lemma round_half_even_of_int: "round_half_even (of_int n) = n"
  by (simp add: round_half_even_def)

lemma round_half_even_bounds:
  "\<lfloor>x\<rfloor> \<le> round_half_even x" "round_half_even x \<le> \<lfloor>x\<rfloor> + 1"
  by (simp_all add: round_half_even_def Let_def)

lemma round_half_even_mono:
  assumes "x \<le> y"
  shows "round_half_even x \<le> round_half_even y"
proof (cases "\<lfloor>x\<rfloor> = \<lfloor>y\<rfloor>")
  case True
  with assms have "x - of_int \<lfloor>x\<rfloor> \<le> y - of_int \<lfloor>y\<rfloor>" by simp
  with True show ?thesis
    by (auto simp: round_half_even_def Let_def)
next
  case False
  with assms have "\<lfloor>x\<rfloor> < \<lfloor>y\<rfloor>" using floor_mono[of x y] by linarith
  then have "\<lfloor>x\<rfloor> + 1 \<le> \<lfloor>y\<rfloor>" by simp
  with round_half_even_bounds(2)[of x] round_half_even_bounds(1)[of y]
  show ?thesis by linarith
qed

lemma ulp_split: "(2::rat) powi e = 2 powi 52 * 2 powi (e - 52)"
proof -
  have "(2::rat) powi (52 + (e - 52)) = 2 powi 52 * 2 powi (e - 52)"
    by (rule power_int_add) simp
  then show ?thesis by simp
qed

lemma fl_range:
  assumes "0 < x"
  shows "2 powi (binade x) \<le> fl x" and "fl x \<le> 2 powi (binade x + 1)"
proof -
  define e where "e = binade x"
  define u :: rat where "u = 2 powi (e - 52)"
  have u: "0 < u" by (simp add: u_def)
  have lo: "2 powi e \<le> x" and hi: "x < 2 powi (e + 1)"
    using binade_bounds[OF assms] by (simp_all add: e_def)
  have pe: "(2::rat) powi e = 2 ^ 52 * u"
    using ulp_split[of e] by (simp add: u_def)
  have pe1: "(2::rat) powi (e + 1) = 2 ^ 53 * u"
    using ulp_split[of "e + 1"] power_int_add[of "2::rat" "e - 52" 1] 
    by (simp add: u_def add.commute)
  have flx: "fl x = of_int (round_half_even (x / u)) * u"
    using assms by (simp add: fl_def e_def u_def Let_def)
  have "2 ^ 52 * u \<le> x" using lo by (simp only: pe)
  then have "rat_of_int (2 ^ 52) \<le> x / u"
    using u by (simp add: field_simps)
  then have "round_half_even (rat_of_int (2 ^ 52)) \<le> round_half_even (x / u)"
    by (rule round_half_even_mono)
  then have m_lo: "2 ^ 52 \<le> round_half_even (x / u)"
    by (simp only: round_half_even_of_int)
  have "x < 2 ^ 53 * u" using hi by (simp only: pe1)
  then have "x / u \<le> rat_of_int (2 ^ 53)"
    using u by (simp add: field_simps)
  then have "round_half_even (x / u) \<le> round_half_even (rat_of_int (2 ^ 53))"
    by (rule round_half_even_mono)
  then have m_hi: "round_half_even (x / u) \<le> 2 ^ 53"
    by (simp only: round_half_even_of_int)
  have "rat_of_int (2 ^ 52) \<le> rat_of_int (round_half_even (x / u))"
    using m_lo by (simp only: of_int_le_iff)
  then have "rat_of_int (2 ^ 52) * u \<le> rat_of_int (round_half_even (x / u)) * u"
    using u by (simp only: mult_le_cancel_right_pos)
  then show "2 powi (binade x) \<le> fl x"
    by (simp add: flx pe e_def[symmetric])
  have "rat_of_int (round_half_even (x / u)) \<le> rat_of_int (2 ^ 53)"
    using m_hi by (simp only: of_int_le_iff)
  then have "rat_of_int (round_half_even (x / u)) * u \<le> rat_of_int (2 ^ 53) * u"
    using u by (simp only: mult_le_cancel_right_pos)
  then show "fl x \<le> 2 powi (binade x + 1)"
    by (simp add: flx pe1 e_def[symmetric])
qed

lemma fl_pos: "0 < x \<Longrightarrow> 0 < fl x"
proof -
  assume x: "0 < x"
  have "(0::rat) < 2 powi (binade x)" by simp
  also have "\<dots> \<le> fl x" by (rule fl_range(1)[OF x])
  finally show ?thesis .
qed

lemma fl_nonneg: "0 \<le> x \<Longrightarrow> 0 \<le> fl x"
  using fl_pos[of x] by (cases "x = 0") (simp_all add: fl_def)

lemma binade_mono:
  assumes "0 < x" "x \<le> y"
  shows "binade x \<le> binade y"
proof (rule ccontr)
  assume "\<not> binade x \<le> binade y"
  then have "binade y + 1 \<le> binade x" by simp
  then have "(2::rat) powi (binade y + 1) \<le> 2 powi (binade x)"
    by (rule power_int_increasing) simp
  also have "\<dots> \<le> x" by (rule binade_bounds(1)[OF assms(1)])
  finally have "2 powi (binade y + 1) \<le> y" using assms(2) by simp
  moreover have "y < 2 powi (binade y + 1)"
    using assms by (intro binade_bounds(2)) simp
  ultimately show False by simp
qed

lemma fl_mono:
  assumes "0 \<le> x" "x \<le> y"
  shows "fl x \<le> fl y"
proof (cases "x = 0")
  case True
  with assms fl_nonneg[of y] show ?thesis by (simp add: fl_def)
next
  case False
  with assms have x: "0 < x" and y: "0 < y" by simp_all
  show ?thesis
  proof (cases "binade x = binade y")
    case True
    define u :: rat where "u = 2 powi (binade y - 52)"
    have u: "0 < u" by (simp add: u_def)
    have "x / u \<le> y / u" using assms(2) u by (simp add: divide_right_mono)
    then have "round_half_even (x / u) \<le> round_half_even (y / u)"
      by (rule round_half_even_mono)
    then have "rat_of_int (round_half_even (x / u)) \<le> rat_of_int (round_half_even (y / u))"
      by (simp only: of_int_le_iff)
    then have "rat_of_int (round_half_even (x / u)) * u \<le> rat_of_int (round_half_even (y / u)) * u"
      using u by (simp only: mult_le_cancel_right_pos)
    then show ?thesis
      using x y True by (simp add: fl_def Let_def u_def)
  next
    case False
    with binade_mono[OF x assms(2)] have "binade x + 1 \<le> binade y" by simp
    then have "(2::rat) powi (binade x + 1) \<le> 2 powi (binade y)"
      by (rule power_int_increasing) simp
    with fl_range(2)[OF x] fl_range(1)[OF y] show ?thesis by linarith
  qed
qed

section \<open>The project fold\<close>

lemma initial_results_fold: "initial_results = spec_fold []"
  by (simp add: initial_results_def spec_fold_def severities_def)

lemma try_body_unreadable: "snd f = Inl e \<Longrightarrow> try_body f a = (Some e, a)"
  by (simp add: try_body_def)

lemma try_body_readable:
  assumes "snd f = Inr code_text" and "predict code_text = Inr r"
  shows "try_body f (spec_fold prs) = (None, spec_fold (prs @ [(fst f, r)]))"
proof -
  have r: "r = \<lparr>has_bugs = has_bugs r, confidence = confidence r, bugs_found = bugs_found r,
      total_issues = total_issues r,
      severity_breakdown =
        [(''critical'', count_severity (detect_pattern_bugs code_text) ''critical''),
         (''high'', count_severity (detect_pattern_bugs code_text) ''high''),
         (''medium'', count_severity (detect_pattern_bugs code_text) ''medium''),
         (''low'', count_severity (detect_pattern_bugs code_text) ''low'')]\<rparr>"
    using assms(2) by (auto simp: predict_eq severities_def)
  have sb: "severity_breakdown r =
        [(''critical'', count_severity (detect_pattern_bugs code_text) ''critical''),
         (''high'', count_severity (detect_pattern_bugs code_text) ''high''),
         (''medium'', count_severity (detect_pattern_bugs code_text) ''medium''),
         (''low'', count_severity (detect_pattern_bugs code_text) ''low'')]"
    by (subst r) simp
  show ?thesis
    by (simp add: try_body_def assms sb spec_fold_def severities_def iadd_def bucket_def
        entry_of_def Let_def)
qed

lemma files_loop_fold: "files_loop fs (spec_fold prs) = spec_fold (prs @ analysed fs)"
proof (induction fs arbitrary: prs)
  case Nil
  show ?case by (simp add: analysed_def)
next
  case (Cons f fs)
  show ?case
  proof (cases "snd f")
    case (Inl e)
    then show ?thesis
      using Cons.IH[of prs] by (simp add: try_body_unreadable analysed_def)
  next
    case (Inr code_text)
    obtain r where r: "predict code_text = Inr r" by (simp add: predict_eq)
    show ?thesis
      using Cons.IH[of "prs @ [(fst f, r)]"]
      by (simp add: try_body_readable[OF Inr r] analysed_def Inr r)
  qed
qed

lemma scan_project_eq:
  "scan_project alg fs =
     Inr ((spec_fold (analysed fs))
            \<lparr>all_confidence :=
               (if analysed fs = [] then 0
                else fl (py_sum alg (map (\<lambda>pr. confidence (snd pr)) (analysed fs)) /
                         float_of_int (int (length (analysed fs)))))\<rparr>)"
proof -
  have loop: "files_loop fs initial_results = spec_fold (analysed fs)"
    using files_loop_fold[of fs "[]"] by (simp add: initial_results_fold)
  have tf: "total_files (spec_fold (analysed fs)) = int (length (analysed fs))"
    by (simp add: spec_fold_def)
  have fc: "map file_confidence (files (spec_fold (analysed fs))) =
      map (\<lambda>pr. confidence (snd pr)) (analysed fs)"
    by (simp add: spec_fold_def entry_of_def comp_def)
  show ?thesis
  proof (cases "analysed fs = []")
    case True
    then show ?thesis
      by (simp add: scan_project_def loop spec_fold_def)
  next
    case False
    then have "0 < int (length (analysed fs))" by simp
    then show ?thesis
      using False by (simp add: scan_project_def loop tf fc truediv_def Let_def)
  qed
qed

lemma analysed_filter:
  "analysed (filter (\<lambda>f. \<not> isl (snd f)) fs) = analysed fs"
  by (induction fs) (auto simp: analysed_def split: sum.splits)

lemma analysed_readable:
  "analysed (map (\<lambda>pc. (fst pc, Inr (snd pc))) pcs) = map (\<lambda>pc. (fst pc, projr (predict (snd pc)))) pcs"
  by (induction pcs) (auto simp: analysed_def predict_eq)

section \<open>Bounds of the score\<close>

lemma split_lines_nonempty: "split_lines s \<noteq> []"
  by (induction s) (auto split: list.splits)

lemma count_sub_nonneg: "0 \<le> count_sub sub s"
  by (induction sub s rule: count_sub.induct) auto

lemma fl_one: "fl 1 = 1"
  by code_simp

lemma fl_milli: "fl (fl (1 / 1000)) = fl (1 / 1000)"
  by code_simp

lemma milli_pos: "0 < fl (1 / 1000)"
  by (rule fl_pos) simp

lemma milli_le_cap: "fl (1 / 1000) \<le> fl (95 / 100)"
  by (rule fl_mono) simp_all

lemma cap_less_one: "fl (95 / 100) < 1"
  by code_simp

lemma score_bounds:
  "fl (1 / 1000) \<le> score code_text" "score code_text \<le> fl (95 / 100)"
proof -
  define c where "c = count_sub ''if'' code_text +
      (count_sub ''for'' code_text + count_sub ''while'' code_text)"
  define n where "n = int (length (split_lines code_text))"
  define d where "d = fl (1 / 1000)"
  have c: "0 \<le> c" by (simp add: c_def count_sub_nonneg)
  have n: "1 \<le> n"
    using split_lines_nonempty[of code_text] by (cases "split_lines code_text") (simp_all add: n_def)
  have d: "0 < d" by (simp add: d_def milli_pos)
  have "fl 1 \<le> fl (of_int n)" using n by (intro fl_mono) simp_all
  then have fn: "1 \<le> float_of_int n" by (simp add: float_of_int_def fl_one)
  have "0 \<le> fl (of_int c)" using c by (intro fl_nonneg) simp
  then have fc: "0 \<le> float_of_int c" by (simp add: float_of_int_def)
  have "0 \<le> fl (1 / 10)" by (rule fl_nonneg) simp
  with fc have "0 \<le> float_of_int c * fl (1 / 10)" by simp
  then have t1: "0 \<le> fmul (float_of_int c) (fl (1 / 10))"
    unfolding fmul_def by (rule fl_nonneg)
  have "d \<le> float_of_int n * d" using fn d by simp
  then have "fl d \<le> fl (float_of_int n * d)" using d by (intro fl_mono) simp_all
  then have t2: "d \<le> fmul (float_of_int n) d"
    by (simp add: fmul_def d_def fl_milli)
  have "d \<le> fmul (float_of_int c) (fl (1 / 10)) + fmul (float_of_int n) d"
    using t1 t2 by linarith
  then have "fl d \<le> fl (fmul (float_of_int c) (fl (1 / 10)) + fmul (float_of_int n) d)"
    using d by (intro fl_mono) simp_all
  then have s: "d \<le> fadd (fmul (float_of_int c) (fl (1 / 10))) (fmul (float_of_int n) d)"
    by (simp add: fadd_def d_def fl_milli)
  have sc: "score code_text =
      py_min (fl (95 / 100)) (fadd (fmul (float_of_int c) (fl (1 / 10))) (fmul (float_of_int n) d))"
    by (simp add: score_def c_def n_def d_def)
  show "fl (1 / 1000) \<le> score code_text"
    using s milli_le_cap by (simp add: sc py_min_def d_def)
  show "score code_text \<le> fl (95 / 100)"
    by (simp add: sc py_min_def)
qed

section \<open>Rounding error of the float sum and of the mean\<close>

lemma round_half_even_error: "\<bar>of_int (round_half_even x) - x\<bar> \<le> 1 / 2"
proof -
  have "of_int \<lfloor>x\<rfloor> \<le> x" "x < of_int \<lfloor>x\<rfloor> + 1" by linarith+
  then show ?thesis
    by (auto simp: round_half_even_def Let_def)
qed

lemma fl_error: "\<bar>fl x - x\<bar> \<le> \<bar>x\<bar> * unit_roundoff"
proof (cases "x = 0")
  case True
  then show ?thesis by (simp add: fl_def)
next
  case False
  define e where "e = binade \<bar>x\<bar>"
  define w :: rat where "w = 2 powi (e - 52)"
  define m where "m = x / w"
  have w: "0 < w" by (simp add: w_def)
  have ax: "0 < \<bar>x\<bar>" using False by simp
  have flx: "fl x = of_int (round_half_even m) * w"
    using False by (simp add: fl_def e_def w_def m_def Let_def)
  have xm: "x = m * w" using w by (simp add: m_def)
  have "fl x - x = (of_int (round_half_even m) - m) * w"
    by (simp add: flx xm[symmetric] algebra_simps)
  then have "\<bar>fl x - x\<bar> = \<bar>of_int (round_half_even m) - m\<bar> * w"
    using w by (simp add: abs_mult)
  also have "\<dots> \<le> (1 / 2) * w"
    using round_half_even_error[of m] w by (intro mult_right_mono) simp_all
  finally have a: "\<bar>fl x - x\<bar> \<le> w / 2" by simp
  have "2 powi e \<le> \<bar>x\<bar>"
    using binade_bounds(1)[OF ax] by (simp add: e_def)
  then have "2 ^ 52 * w \<le> \<bar>x\<bar>"
    using ulp_split[of e] by (simp add: w_def)
  then have "w / 2 \<le> \<bar>x\<bar> * unit_roundoff"
    by (simp add: unit_roundoff_def)
  with a show ?thesis by linarith
qed

lemma fl_error_nonneg:
  assumes "0 \<le> x"
  shows "fl x \<le> x + x * unit_roundoff" and "x - x * unit_roundoff \<le> fl x"
  using fl_error[of x] assms by (simp_all add: abs_le_iff)

lemma fl_abs_le: "\<bar>fl x\<bar> \<le> \<bar>x\<bar> + \<bar>x\<bar> * unit_roundoff"
  using fl_error[of x] by linarith

lemma unit_roundoff_small: "0 < unit_roundoff" "unit_roundoff \<le> 1 / 100"
  by (simp_all add: unit_roundoff_def)

lemma fadd_commute: "fadd x y = fadd y x"
  by (simp add: fadd_def add.commute)

lemma add_step:
  assumes "0 \<le> f" "0 \<le> x" "0 \<le> S" "\<bar>f - S\<bar> \<le> a * S" "0 \<le> a" "a \<le> 1"
  shows "0 \<le> fadd f x"
    and "\<bar>fadd f x - (S + x)\<bar> \<le> (a + 2 * unit_roundoff) * (S + x)"
proof -
  show "0 \<le> fadd f x"
    unfolding fadd_def using assms by (intro fl_nonneg) simp
  have "a * S \<le> 1 * S" using assms by (intro mult_right_mono) simp_all
  with assms have fS: "f \<le> 2 * S" by linarith
  have e: "\<bar>fl (f + x) - (f + x)\<bar> \<le> (f + x) * unit_roundoff"
    using fl_error[of "f + x"] assms by simp
  have h: "(f + x) * unit_roundoff \<le> (2 * (S + x)) * unit_roundoff"
    using fS assms unit_roundoff_small by (intro mult_right_mono) simp_all
  have e': "\<bar>fl (f + x) - (f + x)\<bar> \<le> 2 * unit_roundoff * (S + x)"
    using e h by (simp add: algebra_simps)
  have "a * S \<le> a * (S + x)" using assms by (intro mult_left_mono) simp_all
  with assms have d: "\<bar>f - S\<bar> \<le> a * (S + x)" by linarith
  from e' d show "\<bar>fadd f x - (S + x)\<bar> \<le> (a + 2 * unit_roundoff) * (S + x)"
    by (simp add: fadd_def algebra_simps)
qed

lemma two_sum_error:
  assumes "0 \<le> p" "0 \<le> q"
  shows "\<bar>fadd (fsub p (fadd p q)) q\<bar> \<le> 3 * unit_roundoff * (p + q)"
proof -
  define u where "u = unit_roundoff"
  define P where "P = p + q"
  define t where "t = fl (p + q)"
  define h where "h = fl (p - t)"
  define g where "g = fl (h + q)"
  have u: "0 < u" "u \<le> 1 / 100" using unit_roundoff_small by (simp_all add: u_def)
  have P: "0 \<le> P" using assms by (simp add: P_def)
  have Pu: "0 \<le> P * u" using P u by simp
  have e1: "\<bar>t - P\<bar> \<le> P * u"
    using fl_error[of "p + q"] P by (simp add: t_def P_def u_def)
  have pt: "\<bar>p - t\<bar> \<le> P * u + P"
    using e1 assms by (simp add: P_def)
  have "\<bar>h - (p - t)\<bar> \<le> \<bar>p - t\<bar> * u"
    using fl_error[of "p - t"] by (simp add: h_def u_def)
  also have "\<dots> \<le> (P * u + P) * u"
    using pt u by (intro mult_right_mono) simp_all
  finally have e2: "\<bar>h - (p - t)\<bar> \<le> (P * u + P) * u" .
  have hq: "\<bar>h + q\<bar> \<le> (P * u + P) * u + P * u"
    using e1 e2 by (simp add: P_def)
  define W where "W = (P * u + P) * u + P * u"
  have W: "0 \<le> W" using P u by (simp add: W_def)
  have "\<bar>g - (h + q)\<bar> \<le> \<bar>h + q\<bar> * u"
    using fl_error[of "h + q"] by (simp add: g_def u_def)
  also have "\<dots> \<le> W * u"
    using hq u by (intro mult_right_mono) (simp_all add: W_def)
  finally have e3: "\<bar>g - (h + q)\<bar> \<le> W * u" .
  have g: "\<bar>g\<bar> \<le> W + W * u"
    using e3 hq by (simp add: W_def)
  have uu: "u * u \<le> (1 / 100) * u" using u by (intro mult_right_mono) simp_all
  have "(2 + u) * (1 + u) = 2 + 3 * u + u * u" by (simp add: algebra_simps)
  also have "\<dots> \<le> 3" using uu u by linarith
  finally have k: "(2 + u) * (1 + u) \<le> 3" .
  have "W + W * u = (P * u) * ((2 + u) * (1 + u))"
    by (simp add: W_def algebra_simps)
  also have "\<dots> \<le> (P * u) * 3"
    using k Pu by (intro mult_left_mono) simp_all
  finally have "W + W * u \<le> 3 * u * P" by (simp add: mult.commute mult.left_commute)
  with g have "\<bar>g\<bar> \<le> 3 * u * P" by linarith
  then show ?thesis
    by (simp add: g_def h_def t_def P_def u_def fadd_def fsub_def)
qed

lemma comp_step:
  assumes "0 \<le> f" "0 \<le> x" "0 \<le> S" "\<bar>f - S\<bar> \<le> a * S" "0 \<le> a" "a \<le> 1 / 4"
    and "\<bar>c\<bar> \<le> b * S" "0 \<le> b" "b \<le> 1 / 8"
  shows "\<bar>if \<bar>x\<bar> \<le> \<bar>f\<bar> then fadd c (fadd (fsub f (fadd f x)) x)
          else fadd c (fadd (fsub x (fadd f x)) f)\<bar> \<le> (b + 4 * unit_roundoff) * (S + x)"
proof -
  define u where "u = unit_roundoff"
  have u: "0 < u" "u \<le> 1 / 100" using unit_roundoff_small by (simp_all add: u_def)
  define g where "g = (if \<bar>x\<bar> \<le> \<bar>f\<bar> then fadd (fsub f (fadd f x)) x
                         else fadd (fsub x (fadd f x)) f)"
  have Sx: "0 \<le> S + x" using assms by simp
  have g: "\<bar>g\<bar> \<le> 3 * u * (f + x)"
    using two_sum_error[of f x] two_sum_error[of x f] assms
    by (simp add: g_def u_def fadd_commute[of f x] add.commute)
  have "a * S \<le> (1 / 4) * S" using assms by (intro mult_right_mono) simp_all
  with assms have "f \<le> (5 / 4) * S" by linarith
  with assms have "f + x \<le> (5 / 4) * (S + x)" by simp
  then have "(3 * u) * (f + x) \<le> (3 * u) * ((5 / 4) * (S + x))"
    using u by (intro mult_left_mono) simp_all
  with g have "\<bar>g\<bar> \<le> (3 * u) * ((5 / 4) * (S + x))" by linarith
  then have g': "\<bar>g\<bar> \<le> (15 / 4) * u * (S + x)" by (simp add: algebra_simps)
  have "b * S \<le> b * (S + x)" using assms by (intro mult_left_mono) simp_all
  with assms have c: "\<bar>c\<bar> \<le> b * (S + x)" by linarith
  define V where "V = (b + (15 / 4) * u) * (S + x)"
  have Veq: "V = b * (S + x) + (15 / 4) * u * (S + x)"
    by (simp add: V_def algebra_simps)
  have cg: "\<bar>c + g\<bar> \<le> V"
    unfolding Veq using c g' by linarith
  have V: "0 \<le> V" using cg by linarith
  have "\<bar>fl (c + g) - (c + g)\<bar> \<le> \<bar>c + g\<bar> * u"
    using fl_error[of "c + g"] by (simp add: u_def)
  also have "\<dots> \<le> V * u" using cg u by (intro mult_right_mono) simp_all
  finally have "\<bar>fl (c + g)\<bar> \<le> V + V * u" using cg by linarith
  moreover have "V + V * u \<le> (b + 4 * u) * (S + x)"
  proof -
    have bu: "b * u \<le> (1 / 8) * u" using assms u by (intro mult_right_mono) simp_all
    have uu: "u * u \<le> (1 / 100) * u" using u by (intro mult_right_mono) simp_all
    have "(b + (15 / 4) * u) * (1 + u) = b + (15 / 4) * u + b * u + (15 / 4) * (u * u)"
      by (simp add: algebra_simps)
    also have "\<dots> \<le> b + 4 * u" using bu uu u by linarith
    finally have "(b + (15 / 4) * u) * (1 + u) \<le> b + 4 * u" .
    then have le: "((b + (15 / 4) * u) * (1 + u)) * (S + x) \<le> (b + 4 * u) * (S + x)"
      using Sx by (intro mult_right_mono) simp_all
    have "V + V * u = V * (1 + u)" by (simp only: distrib_left mult_1_right)
    also have "\<dots> = ((b + (15 / 4) * u) * (1 + u)) * (S + x)"
      by (simp only: V_def ac_simps)
    finally show ?thesis using le by simp
  qed
  ultimately have "\<bar>fl (c + g)\<bar> \<le> (b + 4 * u) * (S + x)" by linarith
  then show ?thesis
    by (simp add: g_def u_def fadd_def split: if_splits)
qed

lemma final_step:
  assumes "0 \<le> S" "\<bar>f - S\<bar> \<le> a * S" "\<bar>c\<bar> \<le> b * S" "0 \<le> a" "0 \<le> b" "a + b \<le> 1"
  shows "\<bar>(if c \<noteq> 0 then fadd f c else f) - S\<bar> \<le> (a + b + 2 * unit_roundoff) * S"
proof -
  define u where "u = unit_roundoff"
  have u: "0 < u" using unit_roundoff_small by (simp add: u_def)
  have aS: "0 \<le> a * S" "0 \<le> b * S" "0 \<le> u * S" using assms u by simp_all
  have "(a + b) * S \<le> 1 * S" using assms by (intro mult_right_mono) simp_all
  then have ab: "a * S + b * S \<le> S" by (simp add: algebra_simps)
  show ?thesis
  proof (cases "c = 0")
    case True
    have "\<bar>f - S\<bar> \<le> a * S + b * S + 2 * (u * S)" using assms aS by linarith
    then show ?thesis using True by (simp add: algebra_simps u_def)
  next
    case False
    have fc: "\<bar>f + c\<bar> \<le> 2 * S" using assms ab by linarith
    have "\<bar>fl (f + c) - (f + c)\<bar> \<le> \<bar>f + c\<bar> * u"
      using fl_error[of "f + c"] by (simp add: u_def)
    also have "\<dots> \<le> (2 * S) * u" using fc u by (intro mult_right_mono) simp_all
    finally have "\<bar>fl (f + c) - (f + c)\<bar> \<le> 2 * u * S" by (simp add: algebra_simps)
    with assms have "\<bar>fl (f + c) - S\<bar> \<le> a * S + b * S + 2 * u * S" by linarith
    then show ?thesis using False by (simp add: fadd_def algebra_simps u_def)
  qed
qed

lemma count_roundoff:
  assumes "k \<le> 2 ^ 30"
  shows "rat_of_nat k * unit_roundoff \<le> 1 / 2 ^ 23"
proof -
  have "rat_of_nat k \<le> rat_of_nat (2 ^ 30)" using assms by (rule of_nat_mono)
  then have "rat_of_nat k \<le> 2 ^ 30" by simp
  then have "rat_of_nat k * unit_roundoff \<le> 2 ^ 30 * unit_roundoff"
    using unit_roundoff_small by (intro mult_right_mono) simp_all
  then show ?thesis by (simp add: unit_roundoff_def)
qed

lemma foldl_fadd_error:
  assumes "\<forall>x\<in>set xs. 0 \<le> x" "0 \<le> f" "0 \<le> S"
    and "\<bar>f - S\<bar> \<le> (2 * rat_of_nat k * unit_roundoff) * S"
    and "k + length xs \<le> 2 ^ 30"
  shows "\<bar>foldl fadd f xs - (S + sum_list xs)\<bar> \<le>
           (2 * rat_of_nat (k + length xs) * unit_roundoff) * (S + sum_list xs)"
  using assms
proof (induction xs arbitrary: f S k)
  case Nil
  then show ?case by simp
next
  case (Cons x xs)
  have x: "0 \<le> x" and xs: "\<forall>x\<in>set xs. 0 \<le> x" using Cons.prems(1) by simp_all
  have k: "k \<le> 2 ^ 30" using Cons.prems(5) by simp
  have a0: "0 \<le> 2 * rat_of_nat k * unit_roundoff" using unit_roundoff_small by simp
  have a1: "2 * rat_of_nat k * unit_roundoff \<le> 1" using count_roundoff[OF k] by simp
  note st = add_step[OF Cons.prems(2) x Cons.prems(3) Cons.prems(4) a0 a1]
  have e: "\<bar>fadd f x - (S + x)\<bar> \<le> (2 * rat_of_nat (Suc k) * unit_roundoff) * (S + x)"
    using st(2) by (simp add: algebra_simps)
  have Sx: "0 \<le> S + x" using Cons.prems(3) x by simp
  have n: "Suc k + length xs \<le> 2 ^ 30" using Cons.prems(5) by simp
  from Cons.IH[OF xs st(1) Sx e n] show ?case by (simp add: add.assoc)
qed

lemma neumaier_loop_error:
  assumes "\<forall>x\<in>set xs. 0 \<le> x" "0 \<le> f" "0 \<le> S"
    and "\<bar>f - S\<bar> \<le> (2 * rat_of_nat k * unit_roundoff) * S"
    and "\<bar>c\<bar> \<le> (4 * rat_of_nat k * unit_roundoff) * S"
    and "k + length xs \<le> 2 ^ 30"
  shows "\<bar>neumaier_loop f c xs - (S + sum_list xs)\<bar> \<le>
           ((6 * rat_of_nat (k + length xs) + 2) * unit_roundoff) * (S + sum_list xs)"
  using assms
proof (induction xs arbitrary: f c S k)
  case Nil
  have k: "k \<le> 2 ^ 30" using Nil.prems(6) by simp
  have a0: "0 \<le> 2 * rat_of_nat k * unit_roundoff" "0 \<le> 4 * rat_of_nat k * unit_roundoff"
    using unit_roundoff_small by simp_all
  have ab: "2 * rat_of_nat k * unit_roundoff + 4 * rat_of_nat k * unit_roundoff \<le> 1"
  proof -
    have "2 * rat_of_nat k * unit_roundoff + 4 * rat_of_nat k * unit_roundoff =
        6 * (rat_of_nat k * unit_roundoff)" by simp
    moreover have "rat_of_nat k * unit_roundoff \<le> 1 / 8388608"
      using count_roundoff[OF k] by simp
    ultimately show ?thesis by linarith
  qed
  from final_step[OF Nil.prems(3) Nil.prems(4) Nil.prems(5) a0 ab]
  show ?case by (simp add: algebra_simps)
next
  case (Cons x xs)
  have x: "0 \<le> x" and xs: "\<forall>x\<in>set xs. 0 \<le> x" using Cons.prems(1) by simp_all
  have k: "k \<le> 2 ^ 30" using Cons.prems(6) by simp
  have a0: "0 \<le> 2 * rat_of_nat k * unit_roundoff" "0 \<le> 4 * rat_of_nat k * unit_roundoff"
    using unit_roundoff_small by simp_all
  have a1: "2 * rat_of_nat k * unit_roundoff \<le> 1" "2 * rat_of_nat k * unit_roundoff \<le> 1 / 4"
    "4 * rat_of_nat k * unit_roundoff \<le> 1 / 8"
    using count_roundoff[OF k] by simp_all
  note st = add_step[OF Cons.prems(2) x Cons.prems(3) Cons.prems(4) a0(1) a1(1)]
  define c' where "c' = (if \<bar>x\<bar> \<le> \<bar>f\<bar> then fadd c (fadd (fsub f (fadd f x)) x)
          else fadd c (fadd (fsub x (fadd f x)) f))"
  have e: "\<bar>fadd f x - (S + x)\<bar> \<le> (2 * rat_of_nat (Suc k) * unit_roundoff) * (S + x)"
    using st(2) by (simp add: algebra_simps)
  have ce: "\<bar>c'\<bar> \<le> (4 * rat_of_nat (Suc k) * unit_roundoff) * (S + x)"
    using comp_step[OF Cons.prems(2) x Cons.prems(3) Cons.prems(4) a0(1) a1(2) Cons.prems(5) a0(2) a1(3)]
    by (simp add: c'_def algebra_simps)
  have Sx: "0 \<le> S + x" using Cons.prems(3) x by simp
  have n: "Suc k + length xs \<le> 2 ^ 30" using Cons.prems(6) by simp
  have step: "neumaier_loop f c (x # xs) = neumaier_loop (fadd f x) c' xs"
    by (simp add: c'_def Let_def)
  from Cons.IH[OF xs st(1) Sx e ce n] show ?case
    unfolding step by (simp add: add.assoc)
qed

lemma sum_list_nonneg_rat: "\<forall>x\<in>set xs. 0 \<le> x \<Longrightarrow> 0 \<le> sum_list (xs :: rat list)"
  by (induction xs) simp_all

lemma py_sum_error:
  assumes "\<forall>x\<in>set xs. 0 \<le> x" "length xs \<le> 2 ^ 30"
  shows "\<bar>py_sum alg xs - sum_list xs\<bar> \<le>
           ((6 * rat_of_nat (length xs) + 2) * unit_roundoff) * sum_list xs"
proof (cases alg)
  case Sequential
  have S: "0 \<le> sum_list xs" using assms(1) by (rule sum_list_nonneg_rat)
  have "\<bar>foldl fadd 0 xs - (0 + sum_list xs)\<bar> \<le>
      (2 * rat_of_nat (0 + length xs) * unit_roundoff) * (0 + sum_list xs)"
    using assms by (intro foldl_fadd_error) simp_all
  moreover have "(2 * rat_of_nat (length xs) * unit_roundoff) * sum_list xs \<le>
      ((6 * rat_of_nat (length xs) + 2) * unit_roundoff) * sum_list xs"
    using S unit_roundoff_small by (intro mult_right_mono) simp_all
  ultimately show ?thesis using Sequential by simp
next
  case Compensated
  show ?thesis
  proof (cases xs)
    case Nil
    then show ?thesis using Compensated by simp
  next
    case (Cons x ys)
    have x: "0 \<le> x" and ys: "\<forall>x\<in>set ys. 0 \<le> x" using assms(1) Cons by simp_all
    have f0: "0 \<le> fadd 0 x" using x by (simp add: fadd_def fl_nonneg)
    have "\<bar>fl x - x\<bar> \<le> x * unit_roundoff" using fl_error[of x] x by simp
    moreover have "x * unit_roundoff \<le> 2 * (x * unit_roundoff)"
      using x unit_roundoff_small by simp
    ultimately have e: "\<bar>fadd 0 x - x\<bar> \<le> (2 * rat_of_nat 1 * unit_roundoff) * x"
      by (simp add: fadd_def algebra_simps)
    have c: "\<bar>0::rat\<bar> \<le> (4 * rat_of_nat 1 * unit_roundoff) * x"
      using x unit_roundoff_small by simp
    have n: "1 + length ys \<le> 2 ^ 30" using assms(2) Cons by simp
    from neumaier_loop_error[OF ys f0 x e c n] show ?thesis
      using Compensated Cons by (simp add: algebra_simps)
  qed
qed

lemma mean_error:
  fixes n :: int
  assumes "0 \<le> S" "\<bar>R - S\<bar> \<le> E * S" "0 \<le> E" "E \<le> 1 / 4" "1 \<le> n"
  shows "\<bar>fl (R / float_of_int n) - S / of_int n\<bar> \<le>
           (E + 4 * unit_roundoff) * (S / of_int n)"
proof -
  define u where "u = unit_roundoff"
  define N :: rat where "N = of_int n"
  define M where "M = S / N"
  define D where "D = float_of_int n"
  define Q where "Q = R / D"
  define C where "C = fl Q"
  have u: "0 < u" "u \<le> 1 / 100" using unit_roundoff_small by (simp_all add: u_def)
  have N: "1 \<le> N" using assms(5) by (simp add: N_def)
  then have Npos: "0 < N" by linarith
  have M: "0 \<le> M" using assms(1) Npos by (simp add: M_def)
  have SM: "S = M * N" using Npos by (simp add: M_def)
  have Nu: "0 \<le> N * u" using Npos u by simp
  have "N * u \<le> N * (1 / 100)" using u Npos by (intro mult_left_mono) simp_all
  then have Nu': "N * u \<le> N / 100" by simp
  have D: "N - N * u \<le> D" "D \<le> N + N * u"
    using fl_error_nonneg[of N] Npos by (simp_all add: D_def float_of_int_def N_def u_def)
  have Dpos: "0 < D" using D(1) Nu' Npos by linarith
  have ES: "0 \<le> E * S" "E * S \<le> (1 / 4) * S"
    using assms by (simp, intro mult_right_mono, simp_all)
  have R: "S - E * S \<le> R" "R \<le> S + E * S" using assms(2) by linarith+
  have R0: "0 \<le> R" using R(1) ES assms(1) by linarith
  have Q0: "0 \<le> Q" using R0 Dpos by (simp add: Q_def)
  have QD: "Q * D = R" using Dpos by (simp add: Q_def)
  have C: "Q - Q * u \<le> C" "C \<le> Q + Q * u"
    using fl_error_nonneg[of Q] Q0 by (simp_all add: C_def u_def)
  have Eu: "0 \<le> E * u" "E * u \<le> (1 / 4) * u"
    using assms u by (simp, intro mult_right_mono, simp_all)
  have uu: "0 \<le> u * u" "u * u \<le> (1 / 100) * u"
    using u by (simp, intro mult_right_mono, simp_all)
  \<comment> \<open>the quotient against the mean\<close>
  have "Q * (N - N * u) \<le> Q * D" using D(1) Q0 by (rule mult_left_mono)
  then have "Q * (N - N * u) \<le> M * N + E * (M * N)" using QD R(2) by (simp add: SM)
  then have "(Q * (1 - u)) * N \<le> (M * (1 + E)) * N" by (simp add: algebra_simps)
  then have q_up: "Q * (1 - u) \<le> M * (1 + E)"
    using Npos by (simp only: mult_le_cancel_right_pos)
  have "Q * D \<le> Q * (N + N * u)" using D(2) Q0 by (rule mult_left_mono)
  then have "M * N - E * (M * N) \<le> Q * (N + N * u)" using QD R(1) by (simp add: SM)
  then have "(M * (1 - E)) * N \<le> (Q * (1 + u)) * N" by (simp add: algebra_simps)
  then have q_lo: "M * (1 - E) \<le> Q * (1 + u)"
    using Npos by (simp only: mult_le_cancel_right_pos)
  have p_up: "(1 + E) * (1 + u) \<le> (1 + E + 4 * u) * (1 - u)"
  proof -
    have e1: "(1 + E) * (1 + u) = 1 + E + u + E * u" by (simp add: algebra_simps)
    have e2: "(1 + E + 4 * u) * (1 - u) = 1 + E + 3 * u - E * u - 4 * (u * u)"
      by (simp add: algebra_simps)
    show ?thesis unfolding e1 e2 using Eu uu u by linarith
  qed
  have p_lo: "(1 - E - 4 * u) * (1 + u) \<le> (1 - E) * (1 - u)"
  proof -
    have e1: "(1 - E - 4 * u) * (1 + u) = 1 - E - 3 * u - E * u - 4 * (u * u)"
      by (simp add: algebra_simps)
    have e2: "(1 - E) * (1 - u) = 1 - E - u + E * u" by (simp add: algebra_simps)
    show ?thesis unfolding e1 e2 using Eu uu u by linarith
  qed
  \<comment> \<open>upper bound\<close>
  have "C * (1 - u) \<le> (Q + Q * u) * (1 - u)"
    using C(2) u by (intro mult_right_mono) simp_all
  also have "\<dots> = (Q * (1 - u)) * (1 + u)" by (simp add: algebra_simps)
  also have "\<dots> \<le> (M * (1 + E)) * (1 + u)"
    using q_up u by (intro mult_right_mono) simp_all
  also have "\<dots> = M * ((1 + E) * (1 + u))" by (simp add: algebra_simps)
  also have "\<dots> \<le> M * ((1 + E + 4 * u) * (1 - u))"
    using p_up M by (rule mult_left_mono)
  also have "\<dots> = (M * (1 + E + 4 * u)) * (1 - u)" by (simp add: algebra_simps)
  finally have "C * (1 - u) \<le> (M * (1 + E + 4 * u)) * (1 - u)" .
  moreover have "0 < 1 - u" using u by linarith
  ultimately have up: "C \<le> M * (1 + E + 4 * u)"
    by (simp only: mult_le_cancel_right_pos)
  \<comment> \<open>lower bound\<close>
  have "(M * (1 - E - 4 * u)) * (1 + u) = M * ((1 - E - 4 * u) * (1 + u))"
    by (simp add: algebra_simps)
  also have "\<dots> \<le> M * ((1 - E) * (1 - u))"
    using p_lo M by (rule mult_left_mono)
  also have "\<dots> = (M * (1 - E)) * (1 - u)" by (simp add: algebra_simps)
  also have "\<dots> \<le> (Q * (1 + u)) * (1 - u)"
    using q_lo u by (intro mult_right_mono) simp_all
  also have "\<dots> = (Q - Q * u) * (1 + u)" by (simp add: algebra_simps)
  also have "\<dots> \<le> C * (1 + u)"
    using C(1) u by (intro mult_right_mono) simp_all
  finally have "(M * (1 - E - 4 * u)) * (1 + u) \<le> C * (1 + u)" .
  moreover have "0 < 1 + u" using u by linarith
  ultimately have lo: "M * (1 - E - 4 * u) \<le> C"
    by (simp only: mult_le_cancel_right_pos)
  have up': "C \<le> M + (E + 4 * u) * M" using up by (simp add: algebra_simps)
  have lo': "M - (E + 4 * u) * M \<le> C" using lo by (simp add: algebra_simps)
  from up' lo' have "\<bar>C - M\<bar> \<le> (E + 4 * u) * M" by linarith
  then show ?thesis
    by (simp add: C_def Q_def D_def M_def N_def u_def)
qed

lemma confidence_nonneg:
  "list_all2 (\<lambda>pc r. predict (snd pc) = Inr r) pcs rs \<Longrightarrow> \<forall>x\<in>set (map confidence rs). 0 \<le> x"
proof (induction pcs rs rule: list_all2_induct)
  case Nil
  show ?case by simp
next
  case (Cons pc pcs r rs)
  have "0 < fl (1 / 1000)" by (rule milli_pos)
  with score_bounds(1)[of "snd pc"] have "0 \<le> score (snd pc)" by linarith
  with Cons show ?case by (auto simp: predict_eq)
qed

lemma mean_confidence_error:
  assumes "\<forall>x\<in>set cs. 0 \<le> x" "cs \<noteq> []" "length cs \<le> 2 ^ 30"
  shows "\<bar>fl (py_sum alg cs / float_of_int (int (length cs))) - sum_list cs / rat_of_nat (length cs)\<bar>
           \<le> (sum_list cs / rat_of_nat (length cs)) * (rat_of_nat (length cs + 1) / 2 ^ 50)"
proof -
  define n where "n = length cs"
  define S where "S = sum_list cs"
  define E where "E = (6 * rat_of_nat n + 2) * unit_roundoff"
  define M where "M = S / rat_of_nat n"
  have n: "1 \<le> n" "n \<le> 2 ^ 30" using assms by (simp_all add: n_def Suc_le_eq)
  have S: "0 \<le> S" using assms(1) by (simp add: S_def sum_list_nonneg_rat)
  have M: "0 \<le> M" using S by (simp add: M_def)
  have nu: "rat_of_nat n * unit_roundoff \<le> 1 / 8388608"
    using count_roundoff[OF n(2)] by simp
  have Eeq: "E = 6 * (rat_of_nat n * unit_roundoff) + 2 * unit_roundoff"
    by (simp add: E_def algebra_simps)
  have E0: "0 \<le> E" using unit_roundoff_small by (simp add: E_def)
  have E1: "E \<le> 1 / 4" unfolding Eeq using nu unit_roundoff_small by linarith
  have R: "\<bar>py_sum alg cs - S\<bar> \<le> E * S"
    using py_sum_error[OF assms(1) assms(3), of alg] by (simp add: S_def E_def n_def)
  have n1: "1 \<le> int n" using n by simp
  have "\<bar>fl (py_sum alg cs / float_of_int (int n)) - S / of_int (int n)\<bar> \<le>
      (E + 4 * unit_roundoff) * (S / of_int (int n))"
    using S R E0 E1 n1 by (rule mean_error)
  then have b: "\<bar>fl (py_sum alg cs / float_of_int (int n)) - M\<bar> \<le> (E + 4 * unit_roundoff) * M"
    by (simp add: M_def)
  have "E + 4 * unit_roundoff = rat_of_nat (n + 1) * (6 / 2 ^ 53)"
    by (simp add: E_def unit_roundoff_def algebra_simps)
  also have "\<dots> \<le> rat_of_nat (n + 1) * (8 / 2 ^ 53)"
    by (intro mult_left_mono) simp_all
  also have "\<dots> = rat_of_nat (n + 1) / 2 ^ 50" by simp
  finally have "(E + 4 * unit_roundoff) * M \<le> (rat_of_nat (n + 1) / 2 ^ 50) * M"
    using M by (rule mult_right_mono)
  with b have "\<bar>fl (py_sum alg cs / float_of_int (int n)) - M\<bar> \<le> M * (rat_of_nat (n + 1) / 2 ^ 50)"
    by (simp add: mult.commute)
  then show ?thesis by (simp add: M_def S_def n_def)
qed

lemma cap_le: "fl (95 / 100) \<le> 95 / 100"
  by code_simp

lemma milli_ge: "1 / 1000 \<le> fl (1 / 1000)"
  by code_simp

lemma spec_fold_bucket:
  "k \<in> set severities \<Longrightarrow>
   bucket (all_severity_breakdown (spec_fold prs)) k =
     sum_list (map (\<lambda>pr. bucket (severity_breakdown (snd pr)) k) prs)"
  by (auto simp: spec_fold_def severities_def bucket_def)

section \<open>A scan of three files\<close>

lemma confidence_x: "confidence (projr (predict ''x'')) = 1152921504606847 / 1152921504606846976"
  by code_simp

lemma confidence_if: "confidence (projr (predict ''if'')) = 3638908498915361 / 36028797018963968"
  by code_simp

lemma confidence_if_if: "confidence (projr (predict ''if if'')) = 3620894100405879 / 18014398509481984"
  by code_simp

lemma mean_sequential:
  "fl (py_sum Sequential [1152921504606847 / 1152921504606846976,
                          3638908498915361 / 36028797018963968,
                          3620894100405879 / 18014398509481984] / float_of_int 3) =
     7277816997830723 / 72057594037927936"
  by code_simp

lemma mean_compensated:
  "fl (py_sum Compensated [1152921504606847 / 1152921504606846976,
                           3638908498915361 / 36028797018963968,
                           3620894100405879 / 18014398509481984] / float_of_int 3) =
     7277816997830721 / 72057594037927936"
  by code_simp

lemma scan_three_files:
  "all_confidence (projr (scan_project alg
       [(''a'', Inr ''x''), (''b'', Inr ''if''), (''c'', Inr ''if if'')])) =
   fl (py_sum alg [1152921504606847 / 1152921504606846976,
                   3638908498915361 / 36028797018963968,
                   3620894100405879 / 18014398509481984] / float_of_int 3)"
  using analysed_readable[of "[(''a'', ''x''), (''b'', ''if''), (''c'', ''if if'')]"]
  by (simp add: scan_project_eq confidence_x confidence_if confidence_if_if)

section \<open>The claims\<close>

text \<open>
  Claim C1, as amended. For the empty blob \<open>predict\<close> raises no error and returns a result
  with no findings, \<open>total_issues = 0\<close> and \<open>has_bugs = False\<close>; its confidence is not \<open>0.0\<close>
  but \<open>0.001\<close>: \<open>''.split('\n')\<close> is \<open>['']\<close>, so the line count is 1 and the score is
  \<open>0 * 0.1 + 1 * 0.001\<close>.
\<close>

theorem predict_empty_blob:
  "predict '''' =
     Inr \<lparr>has_bugs = False, confidence = fl (1 / 1000), bugs_found = [], total_issues = 0,
          severity_breakdown = [(''critical'', 0), (''high'', 0), (''medium'', 0), (''low'', 0)]\<rparr>
   \<and> fl (1 / 1000) = 1152921504606847 / 1152921504606846976"
  by code_simp

text \<open>
  Claim C1, as stated, fails: the result for the empty blob does not have
  \<open>total_issues = 0\<close>, \<open>confidence = 0.0\<close> and \<open>has_bugs = False\<close> together.
\<close>

theorem predict_empty_blob_counterexample:
  "\<not> (total_issues (projr (predict '''')) = 0 \<and> confidence (projr (predict '''')) = 0 \<and>
      has_bugs (projr (predict '''')) = False)"
  by code_simp

text \<open>
  Claim C2. For every blob \<open>predict\<close> returns a result, and in it
  \<open>has_bugs = (confidence > 0.3 or total_issues > 0)\<close>.
\<close>

theorem predict_has_bugs:
  "\<exists>r. predict code_text = Inr r \<and>
       has_bugs r = (fl (3 / 10) < confidence r \<or> 0 < total_issues r)"
  by (simp add: predict_eq)

text \<open>
  Claim C3. For every blob the severity breakdown of the result has exactly the keys
  critical, high, medium and low; each holds the number of findings of that severity (zero
  when there is none), and \<open>total_issues\<close> is the sum of the four counts.
\<close>

theorem predict_severity_breakdown:
  "\<exists>r. predict code_text = Inr r \<and>
       map fst (severity_breakdown r) = [''critical'', ''high'', ''medium'', ''low''] \<and>
       severity_breakdown r =
         map (\<lambda>s. (s, int (length (filter (\<lambda>b. severity b = s) (bugs_found r)))))
           [''critical'', ''high'', ''medium'', ''low''] \<and>
       total_issues r = sum_list (map snd (severity_breakdown r))"
  using count_severity_total[OF detect_severity_valid, of code_text]
  by (simp add: predict_eq severities_def count_severity_def)

text \<open>
  Claim C4. The findings of a blob are the findings of its lines in ascending order of the
  1-based line number, and within a line one finding for every rule that matches, in the
  order of the rule table; no rule hides another. The line numbers of the sequence are
  therefore ascending. The line \<open>password = "t"; api_key = "sk-x"\<close> yields two findings on
  line 1, the hardcoded password first and the hardcoded API key second.
\<close>

theorem detect_pattern_bugs_order:
  "detect_pattern_bugs code_text = spec_findings code_text \<and>
   sorted (map line (detect_pattern_bugs code_text)) \<and>
   map (\<lambda>b. (line b, message b))
     (detect_pattern_bugs (''password = '' @ [dquote] @ ''t'' @ [dquote] @ ''; api_key = '' @
                           [dquote] @ ''sk-x'' @ [dquote])) =
     [(1, ''Hardcoded password detected - security risk''),
      (1, ''Hardcoded API key detected - security risk'')]"
proof -
  have "map (\<lambda>b. (line b, message b))
     (detect_pattern_bugs (''password = '' @ [dquote] @ ''t'' @ [dquote] @ ''; api_key = '' @
                           [dquote] @ ''sk-x'' @ [dquote])) =
     [(1, ''Hardcoded password detected - security risk''),
      (1, ''Hardcoded API key detected - security risk'')]"
    by code_simp
  then show ?thesis
    using detect_eq_spec[of code_text] detect_sorted[of code_text] by blast
qed

text \<open>
  Claim C5. The confidence of the result is
  \<open>min(0.95, complexity_score * 0.1 + line_count * 0.001)\<close> in float arithmetic, where
  \<open>line_count\<close>, the count of \<open>if\<close> and the count of \<open>for\<close> plus \<open>while\<close> are entries 0, 1
  and 2 of the feature vector and \<open>complexity_score\<close> is the sum of the last two. It never
  exceeds \<open>0.95\<close>, and two blobs with the same feature vector get the same confidence,
  whatever their findings are.
\<close>

theorem predict_confidence_formula:
  "\<exists>r. predict code_text = Inr r \<and>
       confidence r =
         py_min (fl (95 / 100))
           (fadd (fmul (float_of_int (extract_features code_text ! 1 + extract_features code_text ! 2))
                       (fl (1 / 10)))
                 (fmul (float_of_int (extract_features code_text ! 0)) (fl (1 / 1000)))) \<and>
       extract_features code_text ! 0 = int (length (split_lines code_text)) \<and>
       extract_features code_text ! 1 = count_sub ''if'' code_text \<and>
       extract_features code_text ! 2 = count_sub ''for'' code_text + count_sub ''while'' code_text \<and>
       confidence r \<le> fl (95 / 100) \<and> confidence r \<le> 95 / 100 \<and>
       (extract_features code_text' = extract_features code_text \<longrightarrow>
          (\<exists>r'. predict code_text' = Inr r' \<and> confidence r' = confidence r))"
proof -
  have f: "score c = py_min (fl (95 / 100))
           (fadd (fmul (float_of_int (extract_features c ! 1 + extract_features c ! 2))
                       (fl (1 / 10)))
                 (fmul (float_of_int (extract_features c ! 0)) (fl (1 / 1000))))" for c
    by (simp add: score_def extract_features_def)
  have dep: "extract_features code_text' = extract_features code_text \<Longrightarrow>
      score code_text' = score code_text"
    by (simp only: f)
  have le: "score code_text \<le> 95 / 100"
    using score_bounds(2)[of code_text] cap_le by linarith
  show ?thesis
    using f[of code_text] dep le score_bounds(2)[of code_text]
    by (simp add: predict_eq extract_features_def)
qed

theorem predict_confidence_formula_witness:
  "extract_features ''x'' = extract_features ''eval(x)'' \<and>
   bugs_found (projr (predict ''x'')) \<noteq> bugs_found (projr (predict ''eval(x)'')) \<and>
   confidence (projr (predict ''x'')) = confidence (projr (predict ''eval(x)''))"
proof -
  have e: "extract_features ''x'' = extract_features ''eval(x)''"
    by code_simp
  have b: "bugs_found (projr (predict ''x'')) \<noteq> bugs_found (projr (predict ''eval(x)''))"
    by code_simp
  from predict_confidence_formula[of "''eval(x)''" "''x''"] e
  have "confidence (projr (predict ''x'')) = confidence (projr (predict ''eval(x)''))"
    by auto
  with e b show ?thesis by blast
qed

text \<open>
  Claim C6, as amended. When every file is read, the project scan returns a summary (no
  division by zero, also for no file at all) in which \<open>total_files\<close> is the number of
  results, \<open>total_issues\<close> and each of the four severity buckets are the exact sums of the
  per-file values, and \<open>files_with_bugs\<close> counts the results with \<open>has_bugs\<close>. The
  confidence is \<open>0.0\<close> for no file; otherwise it is the float quotient of Python's \<open>sum\<close> of
  the per-file confidences by their number, under either summation of the interpreter. That
  value is in general not the arithmetic mean itself: for up to \<open>2^30\<close> files it differs
  from the arithmetic mean by at most the mean times \<open>(N + 1) / 2^50\<close>.
\<close>

theorem scan_project_summary:
  "\<exists>rs a. list_all2 (\<lambda>pc r. predict (snd pc) = Inr r) pcs rs \<and>
     scan_project alg (map (\<lambda>pc. (fst pc, Inr (snd pc))) pcs) = Inr a \<and>
     total_files a = int (length rs) \<and>
     files_with_bugs a = int (length (filter has_bugs rs)) \<and>
     all_total_issues a = sum_list (map total_issues rs) \<and>
     map fst (all_severity_breakdown a) = [''critical'', ''high'', ''medium'', ''low''] \<and>
     bucket (all_severity_breakdown a) ''critical'' =
       sum_list (map (\<lambda>r. bucket (severity_breakdown r) ''critical'') rs) \<and>
     bucket (all_severity_breakdown a) ''high'' =
       sum_list (map (\<lambda>r. bucket (severity_breakdown r) ''high'') rs) \<and>
     bucket (all_severity_breakdown a) ''medium'' =
       sum_list (map (\<lambda>r. bucket (severity_breakdown r) ''medium'') rs) \<and>
     bucket (all_severity_breakdown a) ''low'' =
       sum_list (map (\<lambda>r. bucket (severity_breakdown r) ''low'') rs) \<and>
     map file_confidence (files a) = map confidence rs \<and>
     all_confidence a =
       (if rs = [] then 0
        else fl (py_sum alg (map confidence rs) / float_of_int (int (length rs)))) \<and>
     (rs \<noteq> [] \<and> length rs \<le> 2 ^ 30 \<longrightarrow>
        \<bar>all_confidence a - sum_list (map confidence rs) / rat_of_nat (length rs)\<bar> \<le>
          sum_list (map confidence rs) / rat_of_nat (length rs) *
            (rat_of_nat (length rs + 1) / 2 ^ 50))"
proof -
  define fs where "fs = map (\<lambda>pc. (fst pc, Inr (snd pc) :: py_error + string)) pcs"
  define prs where "prs = analysed fs"
  define rs where "rs = map snd prs"
  define a where "a = (spec_fold prs)
            \<lparr>all_confidence :=
               (if prs = [] then 0
                else fl (py_sum alg (map (\<lambda>pr. confidence (snd pr)) prs) /
                         float_of_int (int (length prs))))\<rparr>"
  have prs: "prs = map (\<lambda>pc. (fst pc, projr (predict (snd pc)))) pcs"
    by (simp add: prs_def fs_def analysed_readable)
  have 1: "list_all2 (\<lambda>pc r. predict (snd pc) = Inr r) pcs rs"
    by (simp add: rs_def prs list_all2_map2 list_all2_same predict_eq)
  have 2: "scan_project alg fs = Inr a"
    by (simp add: scan_project_eq a_def prs_def)
  have m: "map (\<lambda>pr. f (snd pr)) prs = map f rs" for f :: "result \<Rightarrow> 'b"
    by (simp add: rs_def comp_def)
  have flt: "length (filter (\<lambda>pr. has_bugs (snd pr)) prs) = length (filter has_bugs rs)"
    by (simp add: rs_def filter_map comp_def)
  have 3: "total_files a = int (length rs)"
    by (simp add: a_def spec_fold_def rs_def)
  have 4: "files_with_bugs a = int (length (filter has_bugs rs))"
    by (simp add: a_def spec_fold_def flt)
  have 5: "all_total_issues a = sum_list (map total_issues rs)"
    by (simp add: a_def spec_fold_def m)
  have 6: "map fst (all_severity_breakdown a) = [''critical'', ''high'', ''medium'', ''low'']"
    by (simp add: a_def spec_fold_def severities_def)
  have b: "bucket (all_severity_breakdown a) k =
       sum_list (map (\<lambda>r. bucket (severity_breakdown r) k) rs)" if "k \<in> set severities" for k
  proof -
    have "map (\<lambda>pr. bucket (severity_breakdown (snd pr)) k) prs =
        map (\<lambda>r. bucket (severity_breakdown r) k) rs"
      by (simp add: rs_def comp_def)
    then show ?thesis
      using spec_fold_bucket[OF that, of prs] by (simp add: a_def)
  qed
  have 7: "map file_confidence (files a) = map confidence rs"
    by (simp add: a_def spec_fold_def entry_of_def rs_def comp_def)
  have 8: "all_confidence a =
       (if rs = [] then 0 else fl (py_sum alg (map confidence rs) / float_of_int (int (length rs))))"
    by (simp add: a_def m) (simp add: rs_def)
  have 9: "\<bar>all_confidence a - sum_list (map confidence rs) / rat_of_nat (length rs)\<bar> \<le>
          sum_list (map confidence rs) / rat_of_nat (length rs) *
            (rat_of_nat (length rs + 1) / 2 ^ 50)" if "rs \<noteq> []" "length rs \<le> 2 ^ 30"
    using mean_confidence_error[OF confidence_nonneg[OF 1] _ _, of alg] that
    by (simp add: 8)
  show ?thesis
    using 1 2 3 4 5 6 7 8 9 b[of "''critical''"] b[of "''high''"] b[of "''medium''"] b[of "''low''"]
    unfolding fs_def by (intro exI[of _ rs] exI[of _ a]) (simp add: severities_def)
qed

theorem scan_project_summary_witness:
  "length [(''a'', ''x''), (''b'', ''if''), (''c'', ''if if'')] \<le> (2::nat) ^ 30 \<and>
   \<bar>all_confidence (projr (scan_project Compensated
        [(''a'', Inr ''x''), (''b'', Inr ''if''), (''c'', Inr ''if if'')])) -
     (confidence (projr (predict ''x'')) + confidence (projr (predict ''if'')) +
      confidence (projr (predict ''if if''))) / 3\<bar> \<le>
     (confidence (projr (predict ''x'')) + confidence (projr (predict ''if'')) +
      confidence (projr (predict ''if if''))) / 3 * (4 / 2 ^ 50)"
proof -
  from scan_project_summary[of "[(''a'', ''x''), (''b'', ''if''), (''c'', ''if if'')]" Compensated]
  obtain rs a where
    1: "list_all2 (\<lambda>pc r. predict (snd pc) = Inr r)
          [(''a'', ''x''), (''b'', ''if''), (''c'', ''if if'')] rs"
    and 2: "scan_project Compensated
          (map (\<lambda>pc. (fst pc, Inr (snd pc))) [(''a'', ''x''), (''b'', ''if''), (''c'', ''if if'')]) =
          Inr a"
    and 3: "rs \<noteq> [] \<and> length rs \<le> 2 ^ 30 \<longrightarrow>
        \<bar>all_confidence a - sum_list (map confidence rs) / rat_of_nat (length rs)\<bar> \<le>
          sum_list (map confidence rs) / rat_of_nat (length rs) *
            (rat_of_nat (length rs + 1) / 2 ^ 50)"
    by blast
  from 1 obtain r1 r2 r3 where rs: "rs = [r1, r2, r3]"
    and r: "predict ''x'' = Inr r1" "predict ''if'' = Inr r2" "predict ''if if'' = Inr r3"
    by (auto simp: list_all2_Cons1)
  have c: "confidence (projr (predict ''x'')) = confidence r1"
    "confidence (projr (predict ''if'')) = confidence r2"
    "confidence (projr (predict ''if if'')) = confidence r3"
    by (simp_all add: r)
  have a: "projr (scan_project Compensated
        [(''a'', Inr ''x''), (''b'', Inr ''if''), (''c'', Inr ''if if'')]) = a"
    using 2 by simp
  from 3 have "\<bar>all_confidence a - (confidence r1 + confidence r2 + confidence r3) / 3\<bar> \<le>
      (confidence r1 + confidence r2 + confidence r3) / 3 * (4 / 2 ^ 50)"
    by (simp add: rs add.assoc)
  then show ?thesis
    unfolding a c by simp
qed

text \<open>
  Claim C6, as stated, fails in its last part: for the three files \<open>x\<close>, \<open>if\<close> and
  \<open>if if\<close>, with confidences \<open>0.001\<close>, \<open>0.101\<close> and \<open>0.201\<close>, the confidence of the summary
  is not the arithmetic mean of the three, neither with the sequential summation (it is
  \<open>0.10100000000000002\<close>) nor with the compensated one (\<open>0.10099999999999999\<close>).
\<close>

theorem scan_project_mean_counterexample:
  "all_confidence (projr (scan_project Sequential
       [(''a'', Inr ''x''), (''b'', Inr ''if''), (''c'', Inr ''if if'')])) =
     7277816997830723 / 72057594037927936 \<and>
   all_confidence (projr (scan_project Compensated
       [(''a'', Inr ''x''), (''b'', Inr ''if''), (''c'', Inr ''if if'')])) =
     7277816997830721 / 72057594037927936 \<and>
   (confidence (projr (predict ''x'')) + confidence (projr (predict ''if'')) +
    confidence (projr (predict ''if if''))) / 3 =
     349335215895874655 / 3458764513820540928 \<and>
   all_confidence (projr (scan_project Sequential
       [(''a'', Inr ''x''), (''b'', Inr ''if''), (''c'', Inr ''if if'')])) \<noteq>
     (confidence (projr (predict ''x'')) + confidence (projr (predict ''if'')) +
      confidence (projr (predict ''if if''))) / 3 \<and>
   all_confidence (projr (scan_project Compensated
       [(''a'', Inr ''x''), (''b'', Inr ''if''), (''c'', Inr ''if if'')])) \<noteq>
     (confidence (projr (predict ''x'')) + confidence (projr (predict ''if'')) +
      confidence (projr (predict ''if if''))) / 3"
  unfolding scan_three_files mean_sequential mean_compensated
    confidence_x confidence_if confidence_if_if
  by simp

text \<open>
  Claim C7. A file whose reading or analysis raises an exception does not stop the scan:
  the scan returns the summary of the remaining files, as if the failing files had not been
  listed. They are not counted in \<open>total_files\<close> and do not appear in \<open>files\<close>. This holds
  under either summation of the interpreter.
\<close>

theorem scan_project_skips_failures:
  "scan_project alg fs = scan_project alg (filter (\<lambda>f. \<not> isl (snd f)) fs) \<and>
   (\<exists>a. scan_project alg fs = Inr a \<and>
        map path (files a) = map fst (filter (\<lambda>f. \<not> isl (snd f)) fs) \<and>
        total_files a = int (length (filter (\<lambda>f. \<not> isl (snd f)) fs)))"
proof -
  have eq: "scan_project alg fs = scan_project alg (filter (\<lambda>f. \<not> isl (snd f)) fs)"
    by (simp only: scan_project_eq analysed_filter)
  have p: "map fst (analysed fs) = map fst (filter (\<lambda>f. \<not> isl (snd f)) fs)"
    by (induction fs) (auto simp: analysed_def predict_eq split: sum.splits)
  have l: "length (analysed fs) = length (filter (\<lambda>f. \<not> isl (snd f)) fs)"
    using arg_cong[OF p, of length] by simp
  obtain a where a: "scan_project alg fs = Inr a"
    and fa: "files a = map entry_of (analysed fs)"
    and ta: "total_files a = int (length (analysed fs))"
    by (simp add: scan_project_eq spec_fold_def)
  have "map path (files a) = map fst (analysed fs)"
    by (simp add: fa entry_of_def comp_def)
  then have pa: "map path (files a) = map fst (filter (\<lambda>f. \<not> isl (snd f)) fs)"
    by (simp only: p)
  have la: "total_files a = int (length (filter (\<lambda>f. \<not> isl (snd f)) fs))"
    by (simp only: ta l)
  from eq a pa la show ?thesis by blast
qed

text \<open>
  Claim C8. The severity aggregation raises \<open>KeyError\<close> when some finding has a severity
  outside critical, high, medium and low, and returns the four counts when every severity
  is one of them.
\<close>

theorem calculate_severity_domain:
  "((\<exists>b\<in>set bugs. severity b \<notin> {''critical'', ''high'', ''medium'', ''low''}) \<longrightarrow>
      (\<exists>s. calculate_severity bugs = Inl (KeyError s) \<and>
           s \<notin> {''critical'', ''high'', ''medium'', ''low''})) \<and>
   ((\<forall>b\<in>set bugs. severity b \<in> {''critical'', ''high'', ''medium'', ''low''}) \<longrightarrow>
      calculate_severity bugs =
        Inr (map (\<lambda>s. (s, int (length (filter (\<lambda>b. severity b = s) bugs))))
               [''critical'', ''high'', ''medium'', ''low'']))"
proof -
  have s: "set severities = {''critical'', ''high'', ''medium'', ''low''}"
    by (simp add: severities_def)
  show ?thesis
    using severity_loop_invalid[of bugs 0 0 0 0] severity_loop_valid[of bugs 0 0 0 0]
    unfolding s by (simp add: calculate_severity_def count_severity_def)
qed

theorem calculate_severity_domain_witness:
  "isl (calculate_severity
          [\<lparr>line = 1, severity = ''high'', message = [], code = [], kind = ''pattern''\<rparr>,
           \<lparr>line = 2, severity = ''blocker'', message = [], code = [], kind = ''pattern''\<rparr>]) \<and>
   calculate_severity
     [\<lparr>line = 1, severity = ''critical'', message = [], code = [], kind = ''pattern''\<rparr>,
      \<lparr>line = 2, severity = ''critical'', message = [], code = [], kind = ''pattern''\<rparr>,
      \<lparr>line = 3, severity = ''high'', message = [], code = [], kind = ''pattern''\<rparr>,
      \<lparr>line = 4, severity = ''medium'', message = [], code = [], kind = ''pattern''\<rparr>,
      \<lparr>line = 5, severity = ''low'', message = [], code = [], kind = ''pattern''\<rparr>] =
     Inr [(''critical'', 2), (''high'', 1), (''medium'', 1), (''low'', 1)]"
  using calculate_severity_domain
     [of "[\<lparr>line = 1, severity = ''high'', message = [], code = [], kind = ''pattern''\<rparr>,
           \<lparr>line = 2, severity = ''blocker'', message = [], code = [], kind = ''pattern''\<rparr>]"]
    calculate_severity_domain
     [of "[\<lparr>line = 1, severity = ''critical'', message = [], code = [], kind = ''pattern''\<rparr>,
      \<lparr>line = 2, severity = ''critical'', message = [], code = [], kind = ''pattern''\<rparr>,
      \<lparr>line = 3, severity = ''high'', message = [], code = [], kind = ''pattern''\<rparr>,
      \<lparr>line = 4, severity = ''medium'', message = [], code = [], kind = ''pattern''\<rparr>,
      \<lparr>line = 5, severity = ''low'', message = [], code = [], kind = ''pattern''\<rparr>]"]
  by auto

text \<open>
  Claim C9. The blob \<open>if x == None: pass\<close> yields exactly one finding, of medium severity,
  from the null-comparison rule; the blob \<open>if x is None: pass\<close> yields no finding, and the
  null-comparison rule does not match it.
\<close>

theorem null_comparison_rule:
  \<open>detect_pattern_bugs ''if x == None: pass'' =
     [\<lparr>line = 1, severity = ''medium'',
       message = ''Use '' @ [dquote] @ ''is None'' @ [dquote] @ '' instead of '' @
                 [dquote] @ ''== None'' @ [dquote],
       code = ''if x == None: pass'', kind = ''pattern''\<rparr>] \<and>
   detect_pattern_bugs ''if x is None: pass'' = [] \<and>
   \<not> search True (pattern (bug_patterns ! 0)) ''if x is None: pass''\<close>
  by code_simp

text \<open>
  Claim C10. Every blob, the empty one included, has at least one line, so the confidence
  is at least \<open>0.001\<close>; it is at most \<open>0.95\<close>, hence strictly positive and never \<open>0.0\<close> or
  \<open>1.0\<close>.
\<close>

theorem predict_confidence_range:
  "\<exists>r. predict code_text = Inr r \<and>
       1 \<le> length (split_lines code_text) \<and>
       fl (1 / 1000) \<le> confidence r \<and> 1 / 1000 \<le> confidence r \<and> 0 < confidence r \<and>
       confidence r \<le> fl (95 / 100) \<and> confidence r \<le> 95 / 100 \<and>
       confidence r \<noteq> 0 \<and> confidence r \<noteq> 1"
proof -
  have n: "1 \<le> length (split_lines code_text)"
    using split_lines_nonempty[of code_text] by (cases "split_lines code_text") simp_all
  have lo: "1 / 1000 \<le> score code_text"
    using score_bounds(1)[of code_text] milli_ge by linarith
  have hi: "score code_text \<le> 95 / 100"
    using score_bounds(2)[of code_text] cap_le by linarith
  from lo have pos: "0 < score code_text" by linarith
  from hi have ne1: "score code_text \<noteq> 1" by linarith
  show ?thesis
    using n lo hi pos ne1 score_bounds[of code_text] by (simp add: predict_eq)
qed

end
